theory Spec2Isabelle
  imports
    Complex_Main
    "HOL-Library.Sublist"
    "HOL-Library.Multiset"
    "HOL-Library.Char_ord"
    "HOL-Library.List_Lexorder"
    "HOL-Library.Product_Lexorder"
begin

section \<open>Python values and failures\<close>

text \<open>
  The model follows \<^verbatim>\<open>src/lm_eval/models/huggingface.py\<close>, class
  \<^verbatim>\<open>HuggingfaceCausalLM\<close>. Token ids are natural numbers, Python integers that
  may be negative (\<^verbatim>\<open>max_length\<close>, slice bounds) are \<open>int\<close>, and the
  log-probabilities held in torch tensors are idealised as \<open>real\<close>.

  Every exception of the source is a value. \<open>TorchError\<close> stands for any exception
  raised inside a torch operation (a negative size given to \<^verbatim>\<open>torch.zeros\<close>,
  shapes that do not broadcast, an index outside the gathered dimension, an argmax over
  an empty dimension, a concatenation of no tensors).
\<close>

datatype error =
    AssertionError
  | TorchError
  | ValueError
  | TypeError
  | AttributeError

type_synonym token = nat

subsection \<open>Slices\<close>

text \<open>
  A Python (and torch) slice bound: a negative bound counts from the end, and every
  bound is clamped to the sequence.
\<close>

definition slice_bound :: "nat \<Rightarrow> int \<Rightarrow> nat" where
  "slice_bound n i = (if i < 0 then nat (max 0 (int n + i)) else min n (nat i))"

text \<open>\<^verbatim>\<open>xs[lo:hi]\<close>, a missing bound being \<open>None\<close>.\<close>

definition py_slice :: "'a list \<Rightarrow> int option \<Rightarrow> int option \<Rightarrow> 'a list" where
  "py_slice xs lo hi =
     (let n = length xs;
          a = (case lo of None \<Rightarrow> 0 | Some i \<Rightarrow> slice_bound n i);
          b = (case hi of None \<Rightarrow> n | Some j \<Rightarrow> slice_bound n j)
      in take (b - a) (drop a xs))"

section \<open>The input of the forward pass\<close>

text \<open>
  Line 219:
  \<^verbatim>\<open>(context_enc + continuation_enc)[-(self.max_length + 1) :][:-1]\<close>
\<close>

definition encode_inp :: "int \<Rightarrow> token list \<Rightarrow> token list \<Rightarrow> token list" where
  "encode_inp max_length context_enc continuation_enc =
     py_slice (py_slice (context_enc @ continuation_enc) (Some (- (max_length + 1))) None)
       None (Some (- 1))"

section \<open>Stop strings\<close>

text \<open>
  \<^verbatim>\<open>str.split(sep)\<close> scans from the left, cuts at every occurrence of \<open>sep\<close>
  that does not overlap the previous one, and returns the pieces; an empty separator
  raises \<^verbatim>\<open>ValueError\<close>. \<open>split_pieces sep cur s\<close> is the scan with the
  piece \<open>cur\<close> under construction and \<open>s\<close> still to read.
\<close>

fun split_pieces :: "string \<Rightarrow> string \<Rightarrow> string \<Rightarrow> string list" where
  "split_pieces sep cur [] = [cur]"
| "split_pieces sep cur (c # cs) =
     (if sep \<noteq> [] \<and> prefix sep (c # cs)
      then cur # split_pieces sep [] (drop (length sep) (c # cs))
      else split_pieces sep (cur @ [c]) cs)"

definition py_split :: "string \<Rightarrow> string \<Rightarrow> error + string list" where
  "py_split s sep = (if sep = [] then Inl ValueError else Inr (split_pieces sep [] s))"

text \<open>
  Lines 309 and 310 of \<^verbatim>\<open>greedy_until\<close>:
  \<^verbatim>\<open>for term in until: s = s.split(term)[0]\<close>.
  The list returned by \<^verbatim>\<open>split\<close> is never empty, so the index \<open>[0]\<close> is
  its head.
\<close>

fun truncate_until :: "string \<Rightarrow> string list \<Rightarrow> error + string" where
  "truncate_until s [] = Inr s"
| "truncate_until s (term # until) =
     (case py_split s term of
        Inl e \<Rightarrow> Inl e
      | Inr pieces \<Rightarrow> truncate_until (hd pieces) until)"

text \<open>
  The wording of the specification, to compare with: the prefix of the text before the
  first occurrence of the stop string, the text itself when the stop string is absent.
\<close>

definition cut_before_first :: "string \<Rightarrow> string \<Rightarrow> string" where
  "cut_before_first t s =
     (case find (\<lambda>n. prefix t (drop n s)) [0..<Suc (length s)] of
        None \<Rightarrow> s
      | Some n \<Rightarrow> take n s)"

definition sequential_truncation :: "string \<Rightarrow> string list \<Rightarrow> string" where
  "sequential_truncation s until = foldl (\<lambda>cur t. cut_before_first t cur) s until"


section \<open>Reordering and grouping\<close>

text \<open>
  Modelled from the spec: \<^verbatim>\<open>utils.Reorderer\<close>, whose source is not part of the
  files at hand. Section 4.1 and section 9 of the specification: the items are paired
  with their original index, the pairs are sorted by the key of the item with a stable
  sort (pairs with equal keys stay in the order of their original index),
  \<^verbatim>\<open>get_reordered\<close> returns the items in sorted order, and
  \<^verbatim>\<open>get_original\<close> scatters results given in sorted order into an output array
  of the original size. A slot of the output array that receives no result keeps its
  initial \<^verbatim>\<open>None\<close>.
\<close>

record 'a reorderer =
  ro_size :: nat
  ro_arr :: "(nat \<times> 'a) list"

definition Reorderer :: "'a list \<Rightarrow> ('a \<Rightarrow> 'k::linorder) \<Rightarrow> 'a reorderer" where
  "Reorderer items fn =
     \<lparr>ro_size = length items,
      ro_arr = sort_key (\<lambda>p. fn (snd p)) (enumerate 0 items)\<rparr>"

definition get_reordered :: "'a reorderer \<Rightarrow> 'a list" where
  "get_reordered re_ord = map snd (ro_arr re_ord)"

definition get_original :: "'a reorderer \<Rightarrow> 'b list \<Rightarrow> 'b option list" where
  "get_original re_ord newarr =
     foldl (\<lambda>res (p, v). res[fst p := Some v])
       (replicate (ro_size re_ord) None) (zip (ro_arr re_ord) newarr)"

text \<open>
  Modelled from the spec: \<^verbatim>\<open>utils.chunks\<close>, whose source is not part of the files
  at hand. Section 4.3 of the specification: contiguous groups of \<open>n\<close> items, the last
  group possibly smaller. The specification gives a group size of 0 no meaning; the
  model then keeps all items in one group.
\<close>

fun chunks :: "nat \<Rightarrow> 'a list \<Rightarrow> 'a list list" where
  "chunks n [] = []"
| "chunks 0 (x # xs) = [x # xs]"
| "chunks (Suc n) (x # xs) = (x # take n xs) # chunks (Suc n) (drop n xs)"

section \<open>The model object\<close>

text \<open>
  The fields of \<^verbatim>\<open>self\<close> that the scoring code reads. The external collaborators
  are parameters:
  \<^item> \<open>tok_encode\<close> is the tokenizer;
  \<^item> \<open>log_softmax_model_call\<close> is
    \<^verbatim>\<open>F.log_softmax(self._model_call(batched_inps), dim=-1)\<close>, the forward pass
    followed by the normalisation, of shape [batch, position, vocabulary]; it may raise;
  \<^item> \<open>rolling_windows\<close> is
    \<^verbatim>\<open>list(map(utils.make_disjoint_window, utils.get_rolling_token_windows(...)))\<close>,
    applied to token list, prefix token, maximal sequence length and context length;
    the source of both functions is not part of the files at hand.
\<close>

record lm =
  max_length :: int
  batch_size :: nat
  eot_token_id :: token
  tok_encode :: "string \<Rightarrow> token list"
  log_softmax_model_call :: "token list list \<Rightarrow> error + real list list list"
  rolling_windows ::
    "token list \<Rightarrow> token \<Rightarrow> int \<Rightarrow> nat \<Rightarrow> error + (token list \<times> token list) list"

text \<open>
  An encoded request is the triple \<^verbatim>\<open>(cache_key, context_enc, continuation_enc)\<close>;
  the cache key is the pair of strings, or \<^verbatim>\<open>None\<close> for a rolling window.
\<close>

type_synonym request = "(string \<times> string) option \<times> token list \<times> token list"

type_synonym answer = "real \<times> bool"

section \<open>Scoring encoded requests\<close>

text \<open>
  \<^verbatim>\<open>_collate\<close> of \<^verbatim>\<open>_loglikelihood_tokens\<close> (lines 178 to 187). Python
  compares the pair lexicographically, and the tuple of tokens lexicographically as
  well, which is the order of \<open>int \<times> token list\<close> here.
\<close>

definition collate :: "request \<Rightarrow> int \<times> token list" where
  "collate x = (let toks = fst (snd x) @ snd (snd x) in (- int (length toks), toks))"

text \<open>
  The first loop over a chunk (lines 204 to 244), with the state
  \<^verbatim>\<open>(inps, cont_toks_list, inplens, padding_length)\<close>. The three assertions come
  first; \<^verbatim>\<open>torch.zeros\<close> raises when the row is longer than the padding length.
\<close>

fun assemble_rows ::
  "int \<Rightarrow> request list \<Rightarrow> token list list \<times> token list list \<times> nat list \<times> nat option
     \<Rightarrow> error + token list list \<times> token list list \<times> nat list \<times> nat option" where
  "assemble_rows ml [] st = Inr st"
| "assemble_rows ml ((cache_key, context_enc, continuation_enc) # chunk)
       (inps, cont_toks_list, inplens, padding_length) =
     (if \<not> 0 < length context_enc then Inl AssertionError
      else if \<not> 0 < length continuation_enc then Inl AssertionError
      else if \<not> int (length continuation_enc) \<le> ml then Inl AssertionError
      else
        let inp = encode_inp ml context_enc continuation_enc;
            inplen = length inp;
            cont = continuation_enc;
            padding_length' = (case padding_length of None \<Rightarrow> inplen | Some p \<Rightarrow> p)
        in if padding_length' < inplen then Inl TorchError
           else assemble_rows ml chunk
                  (inps @ [inp @ replicate (padding_length' - inplen) 0],
                   cont_toks_list @ [cont],
                   inplens @ [inplen],
                   Some padding_length'))"

text \<open>
  \<^verbatim>\<open>argmax\<close> over the vocabulary: the index of the first maximal value, and a
  failure on an empty dimension.
\<close>

definition argmax :: "real list \<Rightarrow> nat option" where
  "argmax xs = find (\<lambda>i. xs ! i = Max (set xs)) [0..<length xs]"

text \<open>
  The body of the second loop (lines 255 to 275) for one row: the slice of the row, the
  comparison of the greedy tokens with the continuation, the gather and the sum. The
  slice never has more positions than the continuation has tokens; when it has fewer,
  the comparison or the gather raises. The gather raises as well for a token outside
  the vocabulary dimension.
\<close>

definition extract_answer :: "real list list \<Rightarrow> nat \<Rightarrow> token list \<Rightarrow> error + answer" where
  "extract_answer logits inplen cont_toks =
     (let contlen = length cont_toks;
          sliced = py_slice logits (Some (int inplen - int contlen)) (Some (int inplen));
          greedy_tokens = map argmax sliced
      in if None \<in> set greedy_tokens then Inl TorchError
         else if length sliced \<noteq> contlen then Inl TorchError
         else if \<exists>(dist, tok) \<in> set (zip sliced cont_toks). length dist \<le> tok
           then Inl TorchError
         else
           let max_equal = list_all2 (\<lambda>g tok. g = Some tok) greedy_tokens cont_toks;
               gathered = map (\<lambda>(dist, tok). dist ! tok) (zip sliced cont_toks)
           in Inr (sum_list gathered, max_equal))"

text \<open>The second loop over a chunk (lines 251 to 277), appending to \<^verbatim>\<open>res\<close>.\<close>

fun extract_rows ::
  "(request \<times> real list list \<times> token list \<times> nat \<times> token list) list \<Rightarrow> answer list
     \<Rightarrow> error + answer list" where
  "extract_rows [] res = Inr res"
| "extract_rows ((req, logits, inp, inplen, cont_toks) # rows) res =
     (case extract_answer logits inplen cont_toks of
        Inl e \<Rightarrow> Inl e
      | Inr answer \<Rightarrow> extract_rows rows (res @ [answer]))"

text \<open>
  One iteration of the loop over the chunks (lines 194 to 277).
  \<^verbatim>\<open>torch.cat\<close> raises on an empty list of rows; the rows it receives all have the
  width \<^verbatim>\<open>padding_length\<close>. The \<^verbatim>\<open>zip\<close> of line 251 stops at the shortest
  of its five arguments.
\<close>

definition process_chunk :: "lm \<Rightarrow> request list \<Rightarrow> answer list \<Rightarrow> error + answer list" where
  "process_chunk self chunk res =
     (case assemble_rows (max_length self) chunk ([], [], [], None) of
        Inl e \<Rightarrow> Inl e
      | Inr (inps, cont_toks_list, inplens, padding_length) \<Rightarrow>
          if inps = [] then Inl TorchError
          else
            (case log_softmax_model_call self inps of
               Inl e \<Rightarrow> Inl e
             | Inr multi_logits \<Rightarrow>
                 extract_rows
                   (zip chunk (zip multi_logits (zip inps (zip inplens cont_toks_list))))
                   res))"

fun process_chunks :: "lm \<Rightarrow> request list list \<Rightarrow> answer list \<Rightarrow> error + answer list" where
  "process_chunks self [] res = Inr res"
| "process_chunks self (chunk # rest) res =
     (case process_chunk self chunk res of
        Inl e \<Rightarrow> Inl e
      | Inr res' \<Rightarrow> process_chunks self rest res')"

text \<open>\<^verbatim>\<open>_loglikelihood_tokens\<close> (lines 174 to 279).\<close>

definition loglikelihood_tokens :: "lm \<Rightarrow> request list \<Rightarrow> error + answer option list" where
  "loglikelihood_tokens self requests =
     (let re_ord = Reorderer requests collate
      in case process_chunks self (chunks (batch_size self) (get_reordered re_ord)) [] of
           Inl e \<Rightarrow> Inl e
         | Inr res \<Rightarrow> Inr (get_original re_ord res))"

section \<open>The public entry points\<close>

text \<open>
  A likelihood request object: its inputs \<^verbatim>\<open>req.inps\<close> and its response slot
  \<^verbatim>\<open>req.resps\<close>. \<^verbatim>\<open>loglikelihood\<close> (lines 123 to 140) returns
  \<^verbatim>\<open>None\<close>; what it leaves behind is the mutated request objects, which the
  model returns.
\<close>

record ll_request =
  req_inps :: "string \<times> string"
  req_resps :: "answer option"

definition encode_request :: "lm \<Rightarrow> ll_request \<Rightarrow> request" where
  "encode_request self req =
     (let (context, continuation) = req_inps req;
          context_enc = (if context = [] then [eot_token_id self] else tok_encode self context);
          continuation_enc = tok_encode self continuation
      in (Some (context, continuation), context_enc, continuation_enc))"

definition loglikelihood :: "lm \<Rightarrow> ll_request list \<Rightarrow> error + unit \<times> ll_request list" where
  "loglikelihood self requests =
     (let new_reqs = map (encode_request self) requests
      in case loglikelihood_tokens self new_reqs of
           Inl e \<Rightarrow> Inl e
         | Inr resps \<Rightarrow>
             Inr ((), map (\<lambda>(req, resp). req\<lparr>req_resps := resp\<rparr>) (zip requests resps)))"

text \<open>
  The argument of \<^verbatim>\<open>loglikelihood_rolling\<close> is iterated over and then receives an
  attribute. A builtin list has no attribute dictionary, and an assignment to an
  attribute of it raises \<^verbatim>\<open>AttributeError\<close>; an instance of a sequence class
  defined in Python accepts the assignment.
\<close>

datatype rolling_requests =
    Builtin_list "string list"
  | Sequence_object "string list" "real list option"

fun documents :: "rolling_requests \<Rightarrow> string list" where
  "documents (Builtin_list docs) = docs"
| "documents (Sequence_object docs resps) = docs"

fun set_resps :: "rolling_requests \<Rightarrow> real list \<Rightarrow> error + rolling_requests" where
  "set_resps (Builtin_list docs) v = Inl AttributeError"
| "set_resps (Sequence_object docs resps) v = Inr (Sequence_object docs (Some v))"

text \<open>
  Line 167, \<^verbatim>\<open>[x[0] for x in string_nll]\<close>: an entry that is \<^verbatim>\<open>None\<close>
  cannot be indexed.
\<close>

fun discard_is_greedy :: "answer option list \<Rightarrow> error + real list" where
  "discard_is_greedy [] = Inr []"
| "discard_is_greedy (None # xs) = Inl TypeError"
| "discard_is_greedy (Some x # xs) =
     (case discard_is_greedy xs of Inl e \<Rightarrow> Inl e | Inr ys \<Rightarrow> Inr (fst x # ys))"

text \<open>The loop of \<^verbatim>\<open>loglikelihood_rolling\<close> (lines 144 to 170).\<close>

fun rolling_loop :: "lm \<Rightarrow> string list \<Rightarrow> real list \<Rightarrow> error + real list" where
  "rolling_loop self [] loglikelihoods = Inr loglikelihoods"
| "rolling_loop self (string # rest) loglikelihoods =
     (case rolling_windows self (tok_encode self string) (eot_token_id self)
             (max_length self) 1 of
        Inl e \<Rightarrow> Inl e
      | Inr windows \<Rightarrow>
          let rolling_token_windows = map (\<lambda>x. (None, fst x, snd x)) windows
          in case loglikelihood_tokens self rolling_token_windows of
               Inl e \<Rightarrow> Inl e
             | Inr string_nll \<Rightarrow>
                 (case discard_is_greedy string_nll of
                    Inl e \<Rightarrow> Inl e
                  | Inr nlls \<Rightarrow> rolling_loop self rest (loglikelihoods @ [sum_list nlls])))"

text \<open>
  \<^verbatim>\<open>loglikelihood_rolling\<close> (lines 142 to 172) returns \<^verbatim>\<open>None\<close> as well; the
  model returns the argument after the assignment of line 172.
\<close>

definition loglikelihood_rolling ::
  "lm \<Rightarrow> rolling_requests \<Rightarrow> error + unit \<times> rolling_requests" where
  "loglikelihood_rolling self requests =
     (case rolling_loop self (documents requests) [] of
        Inl e \<Rightarrow> Inl e
      | Inr loglikelihoods \<Rightarrow>
          (case set_resps requests loglikelihoods of
             Inl e \<Rightarrow> Inl e
           | Inr requests' \<Rightarrow> Inr ((), requests')))"

section \<open>Greedy generation\<close>

text \<open>
  \<^verbatim>\<open>_collate\<close> of \<^verbatim>\<open>greedy_until\<close> (lines 287 to 289): the number of tokens
  of the context, then the context string. A generation request is the pair of the
  context and the stop strings.
\<close>

definition collate_until :: "lm \<Rightarrow> string \<times> 'u \<Rightarrow> nat \<times> string" where
  "collate_until self x = (let toks = tok_encode self (fst x) in (length toks, fst x))"

text \<open>The sequence that the loop of line 293 runs over.\<close>

definition greedy_until_order :: "lm \<Rightarrow> (string \<times> 'u) list \<Rightarrow> (string \<times> 'u) list" where
  "greedy_until_order self requests = get_reordered (Reorderer requests (collate_until self))"

section \<open>Notions of the statements\<close>

text \<open>
  The parts of an encoded request that the statements name: the tokens that the sort
  key measures, the three assertions of lines 206 to 208, and the input of line 219
  before padding.
\<close>

definition request_toks :: "request \<Rightarrow> token list" where
  "request_toks x = fst (snd x) @ snd (snd x)"

definition sanity_check :: "int \<Rightarrow> request \<Rightarrow> bool" where
  "sanity_check ml x \<longleftrightarrow>
     0 < length (fst (snd x)) \<and> 0 < length (snd (snd x)) \<and> int (length (snd (snd x))) \<le> ml"

definition input_of :: "int \<Rightarrow> request \<Rightarrow> token list" where
  "input_of ml x = encode_inp ml (fst (snd x)) (snd (snd x))"

text \<open>
  A backend is causal when the distribution it returns at a position of a row is a
  function \<open>next_dist\<close> of the tokens of that row up to that position, and of
  nothing else in the batch. This is what a causal language model, which line 42 of the
  source loads as its backend, computes in exact arithmetic; the statements that need it
  have it as a hypothesis.
\<close>

definition row_logits :: "(token list \<Rightarrow> real list) \<Rightarrow> token list \<Rightarrow> real list list" where
  "row_logits next_dist row = map (\<lambda>p. next_dist (take (Suc p) row)) [0..<length row]"

definition causal_backend ::
  "(token list \<Rightarrow> real list) \<Rightarrow> token list list \<Rightarrow> error + real list list list" where
  "causal_backend next_dist batch = Inr (map (row_logits next_dist) batch)"

text \<open>
  The request on its own: the request, as the only row of a batch, gets the answer \<open>a\<close>.
\<close>

definition scored_alone :: "lm \<Rightarrow> request \<Rightarrow> answer \<Rightarrow> bool" where
  "scored_alone self x a \<longleftrightarrow> process_chunk self [x] [] = Inr [a]"

section \<open>A small model object\<close>

text \<open>
  A concrete model object for the instances at which the theorems are evaluated: a
  tokenizer with one token per character and a vocabulary of four tokens, a causal
  backend whose distribution depends on the parity of the sum of the tokens read so far,
  a maximal length of 3 and batches of 2. Its document splitter cuts the tokens of a
  document into consecutive windows of at most the maximal length, each after one token
  of context: the prefix token for the first window, the last token of the window
  before for the others. A document of more than three tokens has several windows, and
  a document without tokens has none.
\<close>

definition toy_tok_encode :: "string \<Rightarrow> token list" where
  "toy_tok_encode s = map (\<lambda>c. of_char c mod 4) s"

definition toy_next_dist :: "token list \<Rightarrow> real list" where
  "toy_next_dist toks =
     (if even (sum_list toks) then [- 1, - 2, - 3, - 4] else [- 4, - 3, - 2, - 1])"

fun toy_windows :: "nat \<Rightarrow> token \<Rightarrow> token list \<Rightarrow> (token list \<times> token list) list" where
  "toy_windows 0 context_token toks = []"
| "toy_windows (Suc n) context_token [] = []"
| "toy_windows (Suc n) context_token (t # ts) =
     ([context_token], t # take n ts)
       # toy_windows (Suc n) (last (t # take n ts)) (drop n ts)"

definition toy_lm :: lm where
  "toy_lm =
     \<lparr>max_length = 3,
      batch_size = 2,
      eot_token_id = 0,
      tok_encode = toy_tok_encode,
      log_softmax_model_call = causal_backend toy_next_dist,
      rolling_windows = (\<lambda>token_list prefix_token max_seq_len context_len.
        if 1 \<le> context_len \<and> int context_len \<le> max_seq_len
        then Inr (toy_windows (nat max_seq_len) prefix_token token_list)
        else Inl AssertionError)\<rparr>"

section \<open>Slices and the forward-pass input\<close>

lemma py_slice_from_neg:
  "0 < k \<Longrightarrow> py_slice xs (Some (- int k)) None = drop (length xs - k) xs"
  by (auto simp: py_slice_def slice_bound_def Let_def max_def nat_diff_distrib')

lemma py_slice_drop_last: "py_slice xs None (Some (- 1)) = butlast xs"
  by (simp add: py_slice_def slice_bound_def Let_def max_def butlast_conv_take nat_diff_distrib')

lemma encode_inp_eq:
  assumes "0 \<le> ml"
  shows "encode_inp ml context_enc continuation_enc =
         butlast (drop (length (context_enc @ continuation_enc) - nat (ml + 1))
                    (context_enc @ continuation_enc))"
proof -
  have k: "0 < nat (ml + 1)" "- (ml + 1) = - int (nat (ml + 1))"
    using assms by simp_all
  show ?thesis
    unfolding encode_inp_def
    by (subst k(2)) (simp only: py_slice_from_neg [OF k(1)] py_slice_drop_last)
qed

text \<open>
  C2. For a maximal context length \<open>ml \<ge> 0\<close>, the input of the forward pass is the
  concatenation of context and continuation, cut down from the left to its last
  \<open>ml + 1\<close> tokens (a suffix of the concatenation of length
  \<open>min (length toks) (ml + 1)\<close>), without its final token. Its length is at most
  \<open>ml\<close>, and when the concatenation has at most \<open>ml + 1\<close> tokens the input is the
  whole concatenation without its last token.
\<close>

theorem encode_inp_truncated:
  assumes "0 \<le> ml"
  shows "let toks = context_enc @ continuation_enc;
             truncated = drop (length toks - nat (ml + 1)) toks
         in suffix truncated toks
            \<and> length truncated = min (length toks) (nat (ml + 1))
            \<and> encode_inp ml context_enc continuation_enc = butlast truncated
            \<and> int (length (encode_inp ml context_enc continuation_enc)) \<le> ml
            \<and> (int (length toks) \<le> ml + 1 \<longrightarrow>
                 encode_inp ml context_enc continuation_enc = butlast toks)"
proof -
  define toks where "toks = context_enc @ continuation_enc"
  define k where "k = nat (ml + 1)"
  have enc: "encode_inp ml context_enc continuation_enc = butlast (drop (length toks - k) toks)"
    unfolding toks_def k_def by (rule encode_inp_eq [OF assms])
  have 1: "suffix (drop (length toks - k) toks) toks"
    by (rule suffix_drop)
  have 2: "length (drop (length toks - k) toks) = min (length toks) k"
    by simp
  have 3: "int (length (butlast (drop (length toks - k) toks))) \<le> ml"
    using assms by (simp add: k_def)
  have 4: "int (length toks) \<le> ml + 1 \<longrightarrow> butlast (drop (length toks - k) toks) = butlast toks"
    by (simp add: k_def)
  show ?thesis
    unfolding Let_def toks_def [symmetric] k_def [symmetric] enc
    using 1 2 3 4 by blast
qed

theorem encode_inp_truncated_witness:
  "(0::int) \<le> 3
   \<and> encode_inp 3 [1, 2, 3] [4, 5] = butlast [2, 3, 4, 5]
   \<and> int (length ([1, 2] @ [4, 5 :: nat])) \<le> 3 + 1
   \<and> encode_inp 3 [1, 2] [4, 5] = butlast [1, 2, 4, 5]"
  using encode_inp_truncated [of 3 "[1, 2, 3]" "[4, 5]"]
    encode_inp_truncated [of 3 "[1, 2]" "[4, 5]"]
  by (simp add: Let_def)

section \<open>Truncation at the stop strings\<close>

lemma cut_before_first_Nil: "cut_before_first t [] = []"
  by (simp add: cut_before_first_def split: option.splits)

lemma find_map_comp: "find P (map f xs) = map_option f (find (P \<circ> f) xs)"
  by (induction xs) auto

lemma find_upt_Suc:
  "find P [0..<Suc (Suc n)] =
     (if P 0 then Some 0 else map_option Suc (find (P \<circ> Suc) [0..<Suc n]))"
proof -
  have "[0..<Suc (Suc n)] = 0 # [Suc 0..<Suc (Suc n)]"
    by (rule upt_conv_Cons) simp
  also have "[Suc 0..<Suc (Suc n)] = map Suc [0..<Suc n]"
    by (rule map_Suc_upt [symmetric])
  finally have eq: "[0..<Suc (Suc n)] = 0 # map Suc [0..<Suc n]" .
  show ?thesis
    unfolding eq by (simp add: find_map_comp del: upt_Suc)
qed

lemma cut_before_first_Cons:
  "cut_before_first t (c # cs) =
     (if prefix t (c # cs) then [] else c # cut_before_first t cs)"
  by (simp add: cut_before_first_def find_upt_Suc comp_def del: upt_Suc split: option.splits)

text \<open>
  \<open>cut_before_first\<close> is the prefix before the first occurrence: a text without the
  stop string is left as it is, and otherwise the stop string follows the result in the
  text and occurs nowhere earlier.
\<close>

lemma cut_before_first_absent: "\<not> sublist t s \<Longrightarrow> cut_before_first t s = s"
proof (induction s)
  case Nil
  then show ?case by (simp add: cut_before_first_Nil)
next
  case (Cons c cs)
  then have "\<not> prefix t (c # cs)" and "\<not> sublist t cs"
    by (simp_all add: sublist_Cons_right)
  with Cons.IH show ?case
    by (simp add: cut_before_first_Cons)
qed

lemma cut_before_first_present: "sublist t s \<Longrightarrow> prefix (cut_before_first t s @ t) s"
proof (induction s)
  case Nil
  then show ?case by (simp add: cut_before_first_Nil)
next
  case (Cons c cs)
  show ?case
  proof (cases "prefix t (c # cs)")
    case True
    then show ?thesis by (simp add: cut_before_first_Cons)
  next
    case False
    with Cons.prems have "sublist t cs"
      by (simp add: sublist_Cons_right)
    from Cons.IH [OF this] False show ?thesis
      by (simp add: cut_before_first_Cons)
  qed
qed

lemma cut_before_first_least: "s = p @ t @ r \<Longrightarrow> length (cut_before_first t s) \<le> length p"
proof (induction s arbitrary: p)
  case Nil
  then show ?case by (simp add: cut_before_first_Nil)
next
  case (Cons c cs)
  show ?case
  proof (cases "prefix t (c # cs)")
    case True
    then show ?thesis by (simp add: cut_before_first_Cons)
  next
    case False
    with Cons.prems have "p \<noteq> []"
      by (auto simp: prefix_def)
    with Cons.prems obtain p' where p: "p = c # p'" "cs = p' @ t @ r"
      by (cases p) auto
    from Cons.IH [OF p(2)] False show ?thesis
      by (simp add: cut_before_first_Cons p(1))
  qed
qed

lemma hd_split_pieces:
  "sep \<noteq> [] \<Longrightarrow> hd (split_pieces sep cur s) = cur @ cut_before_first sep s"
  by (induction sep cur s rule: split_pieces.induct)
     (simp_all add: cut_before_first_Nil cut_before_first_Cons)

lemma truncate_until_nonempty:
  "\<forall>t\<in>set until. t \<noteq> [] \<Longrightarrow> truncate_until s until = Inr (sequential_truncation s until)"
  by (induction until arbitrary: s)
     (simp_all add: sequential_truncation_def py_split_def hd_split_pieces)

lemma truncate_until_empty_stop:
  "[] \<in> set until \<Longrightarrow> truncate_until s until = Inl ValueError"
  by (induction until arbitrary: s) (auto simp: py_split_def)

text \<open>
  C6, as the claim states it, fails: with the stop list \<open>[''b'', []]\<close> the second
  \<^verbatim>\<open>split\<close> has an empty separator and raises \<^verbatim>\<open>ValueError\<close>, where the
  sequential truncation of the claim gives the empty text.
\<close>

theorem truncate_until_empty_stop_counterexample:
  "truncate_until ''abc'' [''b'', []] = Inl ValueError
   \<and> sequential_truncation ''abc'' [''b'', []] = []"
  by code_simp

text \<open>
  C6, amended. For every generated text and every ordered list of non-empty stop
  strings, the loop returns the sequential truncation: for each stop string in listed
  order, the current text is replaced by its prefix before the first occurrence of the
  stop string, and stays as it is when the stop string is absent. A stop list with an
  empty string makes the loop raise \<^verbatim>\<open>ValueError\<close>. The text
  \<open>''abc<STOP1>def<STOP2>ghi''\<close> with the stop list \<open>[''<STOP2>'', ''<STOP1>'']\<close>
  gives \<open>''abc''\<close>.
\<close>

theorem truncate_until_sequential:
  "((\<forall>t\<in>set until. t \<noteq> []) \<longrightarrow>
      truncate_until s until = Inr (sequential_truncation s until))
   \<and> ([] \<in> set until \<longrightarrow> truncate_until s until = Inl ValueError)
   \<and> truncate_until ''abc<STOP1>def<STOP2>ghi'' [''<STOP2>'', ''<STOP1>''] = Inr ''abc''"
proof -
  have "truncate_until ''abc<STOP1>def<STOP2>ghi'' [''<STOP2>'', ''<STOP1>''] = Inr ''abc''"
    by code_simp
  then show ?thesis
    using truncate_until_nonempty [of until s] truncate_until_empty_stop [of until s]
    by blast
qed

theorem truncate_until_sequential_witness:
  "[] \<notin> set [''<STOP2>'', ''<STOP1>'']
   \<and> truncate_until ''abc<STOP1>def'' [''<STOP2>'', ''<STOP1>''] = Inr ''abc''
   \<and> [] \<in> set [''b'', []]
   \<and> truncate_until ''abc'' [''b'', []] = Inl ValueError"
proof -
  have "sequential_truncation ''abc<STOP1>def'' [''<STOP2>'', ''<STOP1>''] = ''abc''"
    by code_simp
  then show ?thesis
    using truncate_until_sequential [of "[''<STOP2>'', ''<STOP1>'']" "''abc<STOP1>def''"]
      truncate_until_sequential [of "[''b'', []]" "''abc''"]
    by simp
qed

section \<open>The extraction of the log-likelihood\<close>

lemma py_slice_span:
  assumes "contlen \<le> inplen" "inplen \<le> length xs"
  shows "py_slice xs (Some (int inplen - int contlen)) (Some (int inplen)) =
         take contlen (drop (inplen - contlen) xs)"
  using assms
  by (simp add: py_slice_def slice_bound_def Let_def nat_diff_distrib' min_def)

lemma argmax_None_iff: "argmax xs = None \<longleftrightarrow> xs = []"
proof (cases "xs = []")
  case True
  then show ?thesis by (simp add: argmax_def)
next
  case False
  then have "Max (set xs) \<in> set xs"
    by (intro Max_in) simp_all
  then obtain i where "i < length xs" "xs ! i = Max (set xs)"
    by (auto simp: in_set_conv_nth)
  then have "argmax xs \<noteq> None"
    by (auto simp: argmax_def find_None_iff)
  with False show ?thesis by simp
qed

lemma argmax_Some_iff:
  "argmax xs = Some i \<longleftrightarrow>
     i < length xs \<and> (\<forall>j<length xs. xs ! j \<le> xs ! i) \<and> (\<forall>j<i. xs ! j < xs ! i)"
proof (cases "i < length xs")
  case False
  then show ?thesis by (auto simp: argmax_def find_Some_iff)
next
  case True
  then have ne: "xs \<noteq> []" by auto
  have le: "xs ! j \<le> Max (set xs)" if "j < length xs" for j
    using that by (simp add: ne)
  have mx: "xs ! i = Max (set xs) \<longleftrightarrow> (\<forall>j<length xs. xs ! j \<le> xs ! i)"
  proof
    assume "xs ! i = Max (set xs)"
    then show "\<forall>j<length xs. xs ! j \<le> xs ! i" using le by simp
  next
    assume a: "\<forall>j<length xs. xs ! j \<le> xs ! i"
    have "Max (set xs) \<le> xs ! i"
      using a ne by (auto simp: in_set_conv_nth)
    with le [OF True] show "xs ! i = Max (set xs)" by simp
  qed
  have "argmax xs = Some i \<longleftrightarrow> xs ! i = Max (set xs) \<and> (\<forall>j<i. xs ! j \<noteq> Max (set xs))"
    using True by (auto simp: argmax_def find_Some_iff)
  also have "\<dots> \<longleftrightarrow> xs ! i = Max (set xs) \<and> (\<forall>j<i. xs ! j < xs ! i)"
  proof -
    have "xs ! j \<noteq> Max (set xs) \<longleftrightarrow> xs ! j < xs ! i" if "xs ! i = Max (set xs)" "j < i" for j
    proof -
      have "j < length xs" using that(2) True by simp
      from le [OF this] that(1) show ?thesis by auto
    qed
    then show ?thesis by auto
  qed
  finally show ?thesis
    using True mx by auto
qed

lemma extract_answer_of_slice:
  assumes len: "length sliced = length cont_toks"
    and sl: "py_slice logits (Some (int inplen - int (length cont_toks))) (Some (int inplen)) = sliced"
    and voc: "\<forall>k<length cont_toks. cont_toks ! k < length (sliced ! k)"
  shows "extract_answer logits inplen cont_toks =
         Inr (\<Sum>k<length cont_toks. sliced ! k ! (cont_toks ! k),
              \<forall>k<length cont_toks. argmax (sliced ! k) = Some (cont_toks ! k))"
proof -
  have ne: "None \<notin> set (map argmax sliced)"
  proof
    assume "None \<in> set (map argmax sliced)"
    then obtain k where k: "k < length sliced" "argmax (sliced ! k) = None"
      by (auto simp: in_set_conv_nth)
    then have "sliced ! k = []" by (simp add: argmax_None_iff)
    with voc k len show False by auto
  qed
  have inr: "\<not> (\<exists>(dist, tok) \<in> set (zip sliced cont_toks). length dist \<le> tok)"
    using voc len by (auto simp: set_zip)
  have sum: "sum_list (map (\<lambda>(dist, tok). dist ! tok) (zip sliced cont_toks)) =
      (\<Sum>k<length cont_toks. sliced ! k ! (cont_toks ! k))"
    using len by (simp add: sum_list_sum_nth atLeast0LessThan)
  have all: "list_all2 (\<lambda>g tok. g = Some tok) (map argmax sliced) cont_toks \<longleftrightarrow>
      (\<forall>k<length cont_toks. argmax (sliced ! k) = Some (cont_toks ! k))"
    using len by (auto simp: list_all2_conv_all_nth)
  show ?thesis
    unfolding extract_answer_def Let_def sl
    using ne inr len by (simp only: if_False sum all not_False_eq_True if_True simp_thms)
qed

text \<open>
  C1. For a row whose log-softmax output \<open>logits\<close> has at least \<open>inplen\<close>
  positions, with a continuation of \<open>contlen \<le> inplen\<close> tokens that all lie in
  the vocabulary of their position, the slice taken by the extraction is the list of the
  positions \<open>inplen - contlen + k\<close> for \<open>k < contlen\<close>, the log-probability is
  the sum over \<open>k\<close> of the distribution at position \<open>inplen - contlen + k\<close>
  at the token \<open>cont_toks ! k\<close>, and the greedy flag holds exactly when the argmax
  of every such distribution is \<open>cont_toks ! k\<close>.
\<close>

theorem extract_answer_span:
  assumes "length cont_toks \<le> inplen" and "inplen \<le> length logits"
    and "\<forall>k<length cont_toks. cont_toks ! k < length (logits ! (inplen - length cont_toks + k))"
  shows "py_slice logits (Some (int inplen - int (length cont_toks))) (Some (int inplen)) =
           map (\<lambda>k. logits ! (inplen - length cont_toks + k)) [0..<length cont_toks]
         \<and> extract_answer logits inplen cont_toks =
           Inr (\<Sum>k<length cont_toks. logits ! (inplen - length cont_toks + k) ! (cont_toks ! k),
                \<forall>k<length cont_toks.
                   argmax (logits ! (inplen - length cont_toks + k)) = Some (cont_toks ! k))"
proof -
  define n where "n = length cont_toks"
  define sliced where "sliced = map (\<lambda>k. logits ! (inplen - n + k)) [0..<n]"
  have sl: "py_slice logits (Some (int inplen - int n)) (Some (int inplen)) = sliced"
    using assms(1,2) unfolding n_def [symmetric] sliced_def
    by (auto simp: py_slice_span intro!: nth_equalityI)
  have len: "length sliced = n" by (simp add: sliced_def)
  have nth: "sliced ! k = logits ! (inplen - n + k)" if "k < n" for k
    using that by (simp add: sliced_def)
  have voc: "\<forall>k<length cont_toks. cont_toks ! k < length (sliced ! k)"
    using assms(3) nth by (simp add: n_def)
  have "extract_answer logits inplen cont_toks =
         Inr (\<Sum>k<length cont_toks. sliced ! k ! (cont_toks ! k),
              \<forall>k<length cont_toks. argmax (sliced ! k) = Some (cont_toks ! k))"
    by (rule extract_answer_of_slice) (use sl len voc in \<open>simp_all add: n_def\<close>)
  also have "(\<Sum>k<length cont_toks. sliced ! k ! (cont_toks ! k)) =
      (\<Sum>k<length cont_toks. logits ! (inplen - n + k) ! (cont_toks ! k))"
    by (rule sum.cong) (simp_all add: nth n_def)
  also have "(\<forall>k<length cont_toks. argmax (sliced ! k) = Some (cont_toks ! k)) \<longleftrightarrow>
      (\<forall>k<length cont_toks. argmax (logits ! (inplen - n + k)) = Some (cont_toks ! k))"
    using nth by (auto simp: n_def)
  finally show ?thesis
    using sl unfolding n_def sliced_def by simp
qed

theorem extract_answer_span_witness:
  "length [1, 2 :: nat] \<le> 3
   \<and> 3 \<le> length [[- 1, - 2], [- 3, - 1 / 2, - 4], [- 2, - 2, - 1 :: real]]
   \<and> extract_answer [[- 1, - 2], [- 3, - 1 / 2, - 4], [- 2, - 2, - 1]] 3 [1, 2] =
       Inr (- 1 / 2 + - 1, True)
   \<and> extract_answer [[- 1, - 2], [- 3, - 1 / 2, - 4], [- 2, - 2, - 1]] 3 [1, 0] =
       Inr (- 1 / 2 + - 2, False)"
proof -
  let ?logits = "[[- 1, - 2], [- 3, - 1 / 2, - 4], [- 2, - 2, - 1 :: real]]"
  have h1: "length [1, 2 :: nat] \<le> 3" and h1': "length [1, 0 :: nat] \<le> 3"
    and h2: "3 \<le> length ?logits"
    by simp_all
  have h3: "\<forall>k<length [1, 2 :: nat]. [1, 2] ! k < length (?logits ! (3 - length [1, 2 :: nat] + k))"
    by (auto simp: less_Suc_eq)
  have h3': "\<forall>k<length [1, 0 :: nat]. [1, 0] ! k < length (?logits ! (3 - length [1, 0 :: nat] + k))"
    by (auto simp: less_Suc_eq)
  show ?thesis
    using extract_answer_span [OF h1 h2 h3] extract_answer_span [OF h1' h2 h3']
    by (simp add: less_Suc_eq lessThan_Suc argmax_def)
qed

section \<open>The assembly of a batch\<close>

lemma sanity_check_nonneg: "sanity_check ml x \<Longrightarrow> 1 \<le> ml"
  unfolding sanity_check_def by linarith

lemma length_input_of:
  "0 \<le> ml \<Longrightarrow> length (input_of ml x) = min (length (request_toks x)) (nat (ml + 1)) - 1"
  by (simp add: input_of_def request_toks_def encode_inp_eq)

lemma input_of_mono:
  "0 \<le> ml \<Longrightarrow> length (request_toks y) \<le> length (request_toks x)
     \<Longrightarrow> length (input_of ml y) \<le> length (input_of ml x)"
  by (simp add: length_input_of)

lemma contlen_le_inplen:
  assumes "sanity_check ml x"
  shows "length (snd (snd x)) \<le> length (input_of ml x)"
proof -
  have ml: "0 \<le> ml" using sanity_check_nonneg [OF assms] by simp
  have "0 < length (fst (snd x))" "int (length (snd (snd x))) \<le> ml"
    using assms by (simp_all add: sanity_check_def)
  then show ?thesis
    unfolding length_input_of [OF ml] request_toks_def length_append
    by linarith
qed

lemma assemble_rows_step:
  assumes "sanity_check ml x"
    and "P = (case pl of None \<Rightarrow> length (input_of ml x) | Some p \<Rightarrow> p)"
    and "length (input_of ml x) \<le> P"
  shows "assemble_rows ml (x # chunk) (inps, cs, ls, pl) =
         assemble_rows ml chunk
           (inps @ [input_of ml x @ replicate (P - length (input_of ml x)) 0],
            cs @ [snd (snd x)], ls @ [length (input_of ml x)], Some P)"
proof -
  obtain k c t where x: "x = (k, c, t)" by (cases x) auto
  have io: "input_of ml x = encode_inp ml c t"
    by (simp add: x input_of_def)
  show ?thesis
    using assms unfolding io
    by (cases pl) (simp_all add: x sanity_check_def Let_def)
qed

lemma assemble_rows_Some:
  assumes "\<forall>x\<in>set chunk. sanity_check ml x \<and> length (input_of ml x) \<le> P"
  shows "assemble_rows ml chunk (inps, cs, ls, Some P) =
         Inr (inps @ map (\<lambda>x. input_of ml x @ replicate (P - length (input_of ml x)) 0) chunk,
              cs @ map (\<lambda>x. snd (snd x)) chunk,
              ls @ map (\<lambda>x. length (input_of ml x)) chunk,
              Some P)"
  using assms
proof (induction chunk arbitrary: inps cs ls)
  case Nil
  then show ?case by simp
next
  case (Cons x chunk)
  from Cons.prems have ok: "sanity_check ml x" "length (input_of ml x) \<le> P"
    and rest: "\<forall>x\<in>set chunk. sanity_check ml x \<and> length (input_of ml x) \<le> P"
    by simp_all
  have "assemble_rows ml (x # chunk) (inps, cs, ls, Some P) =
         assemble_rows ml chunk
           (inps @ [input_of ml x @ replicate (P - length (input_of ml x)) 0],
            cs @ [snd (snd x)], ls @ [length (input_of ml x)], Some P)"
    by (rule assemble_rows_step [OF ok(1) _ ok(2)]) simp
  then show ?case
    by (simp add: Cons.IH [OF rest])
qed

lemma assemble_rows_None:
  assumes "sanity_check ml x" 
    and "\<forall>y\<in>set chunk. sanity_check ml y \<and> length (input_of ml y) \<le> length (input_of ml x)"
  shows "assemble_rows ml (x # chunk) ([], [], [], None) =
          Inr (map (\<lambda>y. input_of ml y @ replicate (length (input_of ml x) - length (input_of ml y)) 0)
                 (x # chunk),
               map (\<lambda>y. snd (snd y)) (x # chunk),
               map (\<lambda>y. length (input_of ml y)) (x # chunk),
               Some (length (input_of ml x)))"
proof -
  have "assemble_rows ml (x # chunk) ([], [], [], None) =
         assemble_rows ml chunk
           ([] @ [input_of ml x @ replicate (length (input_of ml x) - length (input_of ml x)) 0],
            [] @ [snd (snd x)], [] @ [length (input_of ml x)], Some (length (input_of ml x)))"
    by (rule assemble_rows_step [OF assms(1)]) simp_all
  then show ?thesis
    by (simp add: assemble_rows_Some [OF assms(2)])
qed

lemma assemble_rows_fails:
  assumes "\<exists>x\<in>set chunk. \<not> sanity_check ml x"
  shows "\<exists>e. assemble_rows ml chunk st = Inl e"
  using assms
proof (induction chunk arbitrary: st)
  case Nil
  then show ?case by simp
next
  case (Cons x chunk)
  obtain k c t where x: "x = (k, c, t)" by (cases x) auto
  obtain inps cs ls pl where st: "st = (inps, cs, ls, pl)" by (cases st) auto
  show ?case
  proof (cases "sanity_check ml x")
    case False
    then show ?thesis by (auto simp: x st sanity_check_def)
  next
    case True
    with Cons.prems have "\<exists>x\<in>set chunk. \<not> sanity_check ml x" by simp
    from Cons.IH [OF this] show ?thesis
      by (auto simp: x st Let_def)
  qed
qed

lemma collate_sorted_descending:
  assumes "sorted (map collate xs)"
  shows "sorted_wrt (\<lambda>x y. length (request_toks y) \<le> length (request_toks x)) xs"
proof -
  have "sorted_wrt (\<lambda>x y. collate x \<le> collate y) xs"
    using assms by (simp add: sorted_map)
  then show ?thesis
    by (rule sorted_wrt_mono_rel [rotated])
       (auto simp: collate_def request_toks_def Let_def less_eq_prod_def)
qed

lemma Max_hd_descending:
  assumes "xs \<noteq> []" and "\<forall>n\<in>set xs. n \<le> hd xs"
  shows "hd xs = Max (set xs)"
proof -
  have "hd xs \<in> set xs" using assms(1) by simp
  then show ?thesis
    using assms(2) by (intro Max_eqI [symmetric]) simp_all
qed

lemma input_of_le_hd:
  assumes "sorted_wrt (\<lambda>x y. length (request_toks y) \<le> length (request_toks x)) chunk"
    and "0 \<le> ml" and "y \<in> set chunk"
  shows "length (input_of ml y) \<le> length (input_of ml (hd chunk))"
proof (cases chunk)
  case Nil
  with assms(3) show ?thesis by simp
next
  case (Cons x rest)
  show ?thesis
  proof (cases "y = x")
    case True
    then show ?thesis by (simp add: Cons)
  next
    case False
    with assms(1,3) have "length (request_toks y) \<le> length (request_toks x)"
      by (auto simp: Cons)
    then show ?thesis
      using input_of_mono [OF assms(2)] by (simp add: Cons)
  qed
qed

lemma assemble_rows_descending:
  assumes "chunk \<noteq> []"
    and "\<forall>x\<in>set chunk. sanity_check ml x"
    and "sorted_wrt (\<lambda>x y. length (request_toks y) \<le> length (request_toks x)) chunk"
  shows "assemble_rows ml chunk ([], [], [], None) =
          Inr (map (\<lambda>y. input_of ml y @
                        replicate (length (input_of ml (hd chunk)) - length (input_of ml y)) 0) chunk,
               map (\<lambda>y. snd (snd y)) chunk,
               map (\<lambda>y. length (input_of ml y)) chunk,
               Some (length (input_of ml (hd chunk))))"
proof -
  obtain x rest where chunk: "chunk = x # rest"
    using assms(1) by (cases chunk) auto
  have ml: "0 \<le> ml"
    using assms(2) sanity_check_nonneg [of ml x] by (simp add: chunk)
  have le: "length (input_of ml y) \<le> length (input_of ml x)" if "y \<in> set chunk" for y
    using input_of_le_hd [OF assms(3) ml that] by (simp add: chunk)
  have "assemble_rows ml (x # rest) ([], [], [], None) =
          Inr (map (\<lambda>y. input_of ml y @ replicate (length (input_of ml x) - length (input_of ml y)) 0)
                 (x # rest),
               map (\<lambda>y. snd (snd y)) (x # rest),
               map (\<lambda>y. length (input_of ml y)) (x # rest),
               Some (length (input_of ml x)))"
    by (rule assemble_rows_None) (use assms(2) le in \<open>simp_all add: chunk\<close>)
  then show ?thesis
    by (simp add: chunk)
qed

text \<open>
  C4. For a non-empty chunk whose rows pass the assertions and that is in descending
  order of total token length, the assembly returns, and in what it returns the padding
  length is the pre-padding input length of the first row, every row is its unpadded
  input followed by zeros up to the padding length, the padding length is the maximum
  of the pre-padding input lengths of the chunk, and every row of the token matrix has
  the padding length as its width.
\<close>

theorem assemble_rows_padding:
  assumes "chunk \<noteq> []"
    and "\<forall>x\<in>set chunk. sanity_check ml x"
    and "sorted_wrt (\<lambda>x y. length (request_toks y) \<le> length (request_toks x)) chunk"
  shows "let inplens = map (\<lambda>x. length (input_of ml x)) chunk;
             padding_length = hd inplens;
             rows = map (\<lambda>x. input_of ml x @ replicate (padding_length - length (input_of ml x)) 0) chunk
         in assemble_rows ml chunk ([], [], [], None) =
              Inr (rows, map (\<lambda>x. snd (snd x)) chunk, inplens, Some padding_length)
            \<and> padding_length = Max (set inplens)
            \<and> (\<forall>row\<in>set rows. length row = padding_length)"
proof -
  have ml: "0 \<le> ml"
    using assms(1,2) sanity_check_nonneg [of ml "hd chunk"] by simp
  have le: "length (input_of ml y) \<le> length (input_of ml (hd chunk))" if "y \<in> set chunk" for y
    by (rule input_of_le_hd [OF assms(3) ml that])
  have hd: "hd (map (\<lambda>x. length (input_of ml x)) chunk) = length (input_of ml (hd chunk))"
    using assms(1) by (simp add: hd_map)
  have mx: "hd (map (\<lambda>x. length (input_of ml x)) chunk) =
      Max (set (map (\<lambda>x. length (input_of ml x)) chunk))"
    by (rule Max_hd_descending) (use le assms(1) hd in auto)
  have width: "length (input_of ml y @
        replicate (length (input_of ml (hd chunk)) - length (input_of ml y)) 0) =
      length (input_of ml (hd chunk))" if "y \<in> set chunk" for y
    using le [OF that] by simp
  show ?thesis
    unfolding Let_def mx [symmetric] unfolding hd
    using assemble_rows_descending [OF assms] width by simp
qed

theorem assemble_rows_padding_witness:
  "[(None, [5, 6, 7], [8, 9]), (None, [7], [8])] \<noteq> ([] :: request list)
   \<and> sanity_check 3 (None, [5, 6, 7], [8, 9]) \<and> sanity_check 3 (None, [7], [8])
   \<and> sorted_wrt (\<lambda>x y. length (request_toks y) \<le> length (request_toks x))
        [(None, [5, 6, 7], [8, 9]), (None, [7], [8])]
   \<and> assemble_rows 3 [(None, [5, 6, 7], [8, 9]), (None, [7], [8])] ([], [], [], None) =
       Inr ([[6, 7, 8], [7, 0, 0]], [[8, 9], [8]], [3, 1], Some 3)
   \<and> (3::nat) = Max (set [3, 1])"
proof -
  let ?chunk = "[(None, [5, 6, 7], [8, 9]), (None, [7], [8])] :: request list"
  have h1: "?chunk \<noteq> []" by simp
  have h2: "\<forall>x\<in>set ?chunk. sanity_check 3 x"
    by (simp add: sanity_check_def)
  have h3: "sorted_wrt (\<lambda>x y. length (request_toks y) \<le> length (request_toks x)) ?chunk"
    by (simp add: request_toks_def)
  have enc: "input_of 3 (None, [5, 6, 7], [8, 9]) = [6, 7, 8]" "input_of 3 (None, [7], [8]) = [7]"
    by (simp_all add: input_of_def encode_inp_def py_slice_def slice_bound_def)
  have rep: "replicate 2 (0::nat) = [0, 0]"
    by (simp add: numeral_2_eq_2)
  show ?thesis
    using assemble_rows_padding [OF h1 h2 h3] h2 h3
    by (simp add: Let_def enc rep)
qed

section \<open>The reordering\<close>

lemma map_fst_enumerate': "map fst (enumerate 0 xs) = [0..<length xs]"
  by (simp add: enumerate_eq_zip)

lemma in_set_enumerate_0: "p \<in> set (enumerate 0 xs) \<longleftrightarrow> fst p < length xs \<and> snd p = xs ! fst p"
  by (cases p) (auto simp: in_set_enumerate_eq)

lemma ro_arr_mset: "mset (ro_arr (Reorderer items fn)) = mset (enumerate 0 items)"
  by (simp add: Reorderer_def)

lemma ro_arr_set: "set (ro_arr (Reorderer items fn)) = set (enumerate 0 items)"
  by (simp add: Reorderer_def)

lemma ro_arr_length: "length (ro_arr (Reorderer items fn)) = length items"
  by (simp add: Reorderer_def)

lemma ro_arr_indices: "mset (map fst (ro_arr (Reorderer items fn))) = mset [0..<length items]"
proof -
  have "mset (map fst (ro_arr (Reorderer items fn))) = mset (map fst (enumerate 0 items))"
    by (simp only: mset_map ro_arr_mset)
  then show ?thesis by (simp add: map_fst_enumerate')
qed

lemma ro_arr_distinct: "distinct (map fst (ro_arr (Reorderer items fn)))"
proof -
  have "distinct [0..<length items]" by simp
  then show ?thesis
    using ro_arr_indices [of items fn] by (metis mset_eq_imp_distinct_iff)
qed

lemma ro_arr_snd:
  "p \<in> set (ro_arr (Reorderer items fn)) \<Longrightarrow> fst p < length items \<and> snd p = items ! fst p"
  by (simp add: ro_arr_set in_set_enumerate_0)

lemma get_reordered_mset: "mset (get_reordered (Reorderer items fn)) = mset items"
proof -
  have "mset (map snd (ro_arr (Reorderer items fn))) = mset (map snd (enumerate 0 items))"
    by (simp only: mset_map ro_arr_mset)
  then show ?thesis
    by (simp add: get_reordered_def enumerate_eq_zip)
qed

lemma get_reordered_sorted: "sorted (map fn (get_reordered (Reorderer items fn)))"
proof -
  have "sorted (map (\<lambda>p. fn (snd p)) (sort_key (\<lambda>p. fn (snd p)) (enumerate 0 items)))"
    by (rule sorted_sort_key)
  then show ?thesis
    by (simp add: get_reordered_def Reorderer_def comp_def)
qed

lemma get_reordered_stable:
  "filter (\<lambda>x. fn x = k) (get_reordered (Reorderer items fn)) = filter (\<lambda>x. fn x = k) items"
proof -
  have fm: "filter (\<lambda>x. fn x = k) (map snd ys) = map snd (filter (\<lambda>p. fn (snd p) = k) ys)"
    for ys :: "(nat \<times> 'a) list"
    by (simp add: filter_map comp_def)
  have "filter (\<lambda>p. fn (snd p) = k) (sort_key (\<lambda>p. fn (snd p)) (enumerate 0 items)) =
        filter (\<lambda>p. fn (snd p) = k) (enumerate 0 items)"
    by (rule sort_key_stable)
  then have "map snd (filter (\<lambda>p. fn (snd p) = k) (ro_arr (Reorderer items fn))) =
        map snd (filter (\<lambda>p. fn (snd p) = k) (enumerate 0 items))"
    by (simp add: Reorderer_def)
  then have "filter (\<lambda>x. fn x = k) (map snd (ro_arr (Reorderer items fn))) =
        filter (\<lambda>x. fn x = k) (map snd (enumerate 0 items))"
    by (simp only: fm)
  then show ?thesis
    by (simp add: get_reordered_def enumerate_eq_zip)
qed

subsection \<open>The scatter of \<^verbatim>\<open>get_original\<close>\<close>

lemma scatter_length:
  "length (foldl (\<lambda>res (p, v). res[fst p := Some v]) init pvs) = length init"
  by (induction pvs arbitrary: init) (auto split: prod.splits)

lemma scatter_nth:
  assumes "distinct (map fst arr)" and "i < length init"
  shows "foldl (\<lambda>res (p, v). res[fst p := Some v]) init (zip arr vs) ! i =
         (case map_of (zip (map fst arr) vs) i of Some v \<Rightarrow> Some v | None \<Rightarrow> init ! i)"
  using assms
proof (induction arr arbitrary: vs init)
  case Nil
  then show ?case by simp
next
  case (Cons p arr)
  show ?case
  proof (cases vs)
    case Nil
    then show ?thesis by simp
  next
    case (Cons v vs')
    have d: "distinct (map fst arr)" and notin: "fst p \<notin> set (map fst arr)"
      using Cons.prems(1) by simp_all
    have len: "i < length (init[fst p := Some v])"
      using Cons.prems(2) by simp
    have none: "map_of (zip (map fst arr) vs') (fst p) = None"
      using notin by (metis map_of_zip_is_None set_zip_leftD map_of_eq_None_iff fst_conv image_iff not_None_eq map_of_SomeD)
    show ?thesis
      using Cons.prems(2) none
      by (simp add: Cons Cons.IH [OF d len] split: option.splits)
  qed
qed


lemma get_original_length: "length (get_original (Reorderer items fn) vs) = length items"
  by (simp add: get_original_def scatter_length Reorderer_def)

lemma get_original_nth:
  fixes vs :: "'b list"
  assumes "i < length items"
  shows "get_original (Reorderer items fn) vs ! i =
         map_of (zip (map fst (ro_arr (Reorderer items fn))) vs) i"
proof -
  let ?init = "replicate (ro_size (Reorderer items fn)) (None :: 'b option)"
  have i: "i < length ?init"
    using assms by (simp add: Reorderer_def)
  have "foldl (\<lambda>res (p, v). res[fst p := Some v]) ?init (zip (ro_arr (Reorderer items fn)) vs) ! i =
        (case map_of (zip (map fst (ro_arr (Reorderer items fn))) vs) i of
           Some v \<Rightarrow> Some v | None \<Rightarrow> ?init ! i)"
    by (rule scatter_nth [OF ro_arr_distinct i])
  also have "?init ! i = None"
    using i by simp
  finally show ?thesis
    by (simp add: get_original_def split: option.splits)
qed

lemma ro_arr_position:
  assumes "i < length items"
  obtains j where "j < length items" "ro_arr (Reorderer items fn) ! j = (i, items ! i)"
proof -
  have "(i, items ! i) \<in> set (ro_arr (Reorderer items fn))"
    using assms by (simp add: ro_arr_set in_set_enumerate_0)
  then obtain j where "j < length (ro_arr (Reorderer items fn))"
      "ro_arr (Reorderer items fn) ! j = (i, items ! i)"
    by (auto simp: in_set_conv_nth)
  then show ?thesis
    using that by (simp add: ro_arr_length)
qed

lemma get_original_at:
  assumes "j < length items" and "length vs = length items"
  shows "get_original (Reorderer items fn) vs ! fst (ro_arr (Reorderer items fn) ! j) = Some (vs ! j)"
proof -
  let ?arr = "ro_arr (Reorderer items fn)"
  have j: "j < length ?arr" using assms(1) by (simp add: ro_arr_length)
  then have "?arr ! j \<in> set ?arr" by simp
  then have lt: "fst (?arr ! j) < length items"
    by (simp add: ro_arr_snd)
  have "map_of (zip (map fst ?arr) vs) (map fst ?arr ! j) = Some (vs ! j)"
    by (rule map_of_zip_nth) (use assms j in \<open>simp_all add: ro_arr_length ro_arr_distinct\<close>)
  then show ?thesis
    using j by (simp add: get_original_nth [OF lt])
qed

lemma get_original_get_reordered:
  "get_original (Reorderer items fn) (map g (get_reordered (Reorderer items fn))) =
   map (\<lambda>x. Some (g x)) items"
proof (rule nth_equalityI)
  show "length (get_original (Reorderer items fn) (map g (get_reordered (Reorderer items fn)))) =
        length (map (\<lambda>x. Some (g x)) items)"
    by (simp add: get_original_length)
next
  fix i
  assume "i < length (get_original (Reorderer items fn) (map g (get_reordered (Reorderer items fn))))"
  then have i: "i < length items" by (simp add: get_original_length)
  then obtain j where j: "j < length items" "ro_arr (Reorderer items fn) ! j = (i, items ! i)"
    by (rule ro_arr_position)
  have "get_original (Reorderer items fn) (map g (get_reordered (Reorderer items fn)))
          ! fst (ro_arr (Reorderer items fn) ! j) =
        Some (map g (get_reordered (Reorderer items fn)) ! j)"
    by (rule get_original_at [OF j(1)]) (simp add: get_reordered_def ro_arr_length)
  then show "get_original (Reorderer items fn) (map g (get_reordered (Reorderer items fn))) ! i =
        map (\<lambda>x. Some (g x)) items ! i"
    using i j by (simp add: get_reordered_def ro_arr_length)
qed

subsection \<open>The order of processing\<close>

text \<open>
  For likelihood scoring the reordered requests are sorted by the key of lines 186 and
  187 (negated number of tokens of context plus continuation, then the tokens
  themselves): they are in descending order of total token length, requests with the
  same key keep the order in which the caller gave them, and they are the caller's
  requests.
\<close>

lemma loglikelihood_reordered_descending:
  "sorted (map collate (get_reordered (Reorderer requests collate)))
   \<and> sorted_wrt (\<lambda>x y. length (request_toks y) \<le> length (request_toks x))
        (get_reordered (Reorderer requests collate))
   \<and> filter (\<lambda>x. collate x = k) (get_reordered (Reorderer requests collate)) =
       filter (\<lambda>x. collate x = k) requests
   \<and> mset (get_reordered (Reorderer requests collate)) = mset requests"
  by (simp add: get_reordered_sorted get_reordered_stable get_reordered_mset
      collate_sorted_descending)

text \<open>
  C7. The descending order holds for likelihood scoring, and the comment of lines 179
  to 184 gives the reasons for it: time estimates that err on the safe side, and
  failures for lack of memory at the start of a run. \<^verbatim>\<open>greedy_until\<close> breaks
  it: its key (line 289) is the number of tokens of the context without the negation.
  Given the contexts \<open>''ab''\<close> and \<open>''a''\<close>, of two and one tokens, longest first,
  the loop of line 293 runs over \<open>''a''\<close> first, and the order of processing is not
  the descending order of the context token length.
\<close>

theorem greedy_until_order_at_failing_input:
  "greedy_until_order toy_lm [(''ab'', [''.'']), (''a'', [''.''])] =
     [(''a'', [''.'']), (''ab'', [''.''])]
   \<and> \<not> sorted_wrt (\<lambda>x y. length (tok_encode toy_lm (fst y)) \<le> length (tok_encode toy_lm (fst x)))
         (greedy_until_order toy_lm [(''ab'', [''.'']), (''a'', [''.''])])"
  by code_simp

section \<open>The processing of the batches\<close>

subsection \<open>The extraction reads the continuation span only\<close>

lemma extract_answer_cong:
  assumes "length cont_toks \<le> inplen" and "inplen \<le> length logits" and "inplen \<le> length logits'"
    and "\<forall>p. inplen - length cont_toks \<le> p \<and> p < inplen \<longrightarrow> logits ! p = logits' ! p"
  shows "extract_answer logits inplen cont_toks = extract_answer logits' inplen cont_toks"
proof -
  have "take (length cont_toks) (drop (inplen - length cont_toks) logits) =
        take (length cont_toks) (drop (inplen - length cont_toks) logits')"
  proof (rule nth_equalityI)
    show "length (take (length cont_toks) (drop (inplen - length cont_toks) logits)) =
          length (take (length cont_toks) (drop (inplen - length cont_toks) logits'))"
      using assms(1,2,3) by simp
  next
    fix i
    assume "i < length (take (length cont_toks) (drop (inplen - length cont_toks) logits))"
    then have i: "i < length cont_toks" by simp
    have "inplen - length cont_toks \<le> inplen - length cont_toks + i"
      and "inplen - length cont_toks + i < inplen"
      using i assms(1) by simp_all
    then have "logits ! (inplen - length cont_toks + i) = logits' ! (inplen - length cont_toks + i)"
      using assms(4) by blast
    then show "take (length cont_toks) (drop (inplen - length cont_toks) logits) ! i =
          take (length cont_toks) (drop (inplen - length cont_toks) logits') ! i"
      using i assms(1,2,3) by simp
  qed
  then have "py_slice logits (Some (int inplen - int (length cont_toks))) (Some (int inplen)) =
        py_slice logits' (Some (int inplen - int (length cont_toks))) (Some (int inplen))"
    using assms(1,2,3) by (simp add: py_slice_span)
  then show ?thesis
    by (simp add: extract_answer_def)
qed

subsection \<open>The loops over a chunk\<close>

lemma extract_rows_iff:
  "extract_rows rows res = Inr out \<longleftrightarrow>
     (\<exists>as. out = res @ as \<and>
       list_all2 (\<lambda>row a. extract_answer (fst (snd row)) (fst (snd (snd (snd row)))) (snd (snd (snd (snd row)))) = Inr a)
         rows as)"
proof (induction rows arbitrary: res)
  case Nil
  then show ?case by auto
next
  case (Cons row rows)
  obtain r lg inp il ct where row: "row = (r, lg, inp, il, ct)"
    by (cases row) auto
  show ?case
  proof (cases "extract_answer lg il ct")
    case (Inl e)
    then show ?thesis by (auto simp: row list_all2_Cons1)
  next
    case (Inr a)
    then show ?thesis
      by (auto simp: row Cons.IH list_all2_Cons1)
  qed
qed


lemma process_chunk_insane:
  assumes "x \<in> set chunk" and "\<not> sanity_check (max_length self) x"
  shows "\<exists>e. assemble_rows (max_length self) chunk ([], [], [], None) = Inl e
             \<and> process_chunk self chunk res = Inl e"
proof -
  from assms have "\<exists>x\<in>set chunk. \<not> sanity_check (max_length self) x" by blast
  from assemble_rows_fails [OF this] obtain e
    where "assemble_rows (max_length self) chunk ([], [], [], None) = Inl e" by blast
  then show ?thesis by (simp add: process_chunk_def)
qed

lemma process_chunk_descending:
  assumes "chunk \<noteq> []"
    and "\<forall>x\<in>set chunk. sanity_check (max_length self) x"
    and "sorted_wrt (\<lambda>x y. length (request_toks y) \<le> length (request_toks x)) chunk"
  shows "process_chunk self chunk res =
         (let rows = map (\<lambda>y. input_of (max_length self) y @
                       replicate (length (input_of (max_length self) (hd chunk)) -
                                  length (input_of (max_length self) y)) 0) chunk
          in case log_softmax_model_call self rows of
               Inl e \<Rightarrow> Inl e
             | Inr multi_logits \<Rightarrow>
                 extract_rows
                   (zip chunk (zip multi_logits (zip rows
                      (zip (map (\<lambda>y. length (input_of (max_length self) y)) chunk)
                           (map (\<lambda>y. snd (snd y)) chunk)))))
                   res)"
  using assms(1)
  by (simp add: process_chunk_def assemble_rows_descending [OF assms] Let_def)

lemma length_row_logits: "length (row_logits nd row) = length row"
  by (simp add: row_logits_def)

lemma row_logits_padded:
  "p < length inp \<Longrightarrow> row_logits nd (inp @ pad) ! p = row_logits nd inp ! p"
  by (simp add: row_logits_def)

lemma extract_answer_padded:
  assumes "length cont_toks \<le> length inp"
  shows "extract_answer (row_logits nd (inp @ pad)) (length inp) cont_toks =
         extract_answer (row_logits nd inp) (length inp) cont_toks"
  by (rule extract_answer_cong)
     (use assms in \<open>simp_all add: length_row_logits row_logits_padded\<close>)

lemma scored_alone_sane:
  assumes "scored_alone self x a"
  shows "sanity_check (max_length self) x"
proof (rule ccontr)
  assume "\<not> sanity_check (max_length self) x"
  from process_chunk_insane [OF _ this, of "[x]" "[]"] assms show False
    by (auto simp: scored_alone_def)
qed

lemma scored_alone_causal:
  assumes "log_softmax_model_call self = causal_backend nd"
  shows "scored_alone self x a \<longleftrightarrow>
         sanity_check (max_length self) x \<and>
         extract_answer (row_logits nd (input_of (max_length self) x))
           (length (input_of (max_length self) x)) (snd (snd x)) = Inr a"
proof (cases "sanity_check (max_length self) x")
  case False
  then show ?thesis using scored_alone_sane by blast
next
  case True
  have "process_chunk self [x] [] =
      (case extract_answer (row_logits nd (input_of (max_length self) x))
           (length (input_of (max_length self) x)) (snd (snd x)) of
         Inl e \<Rightarrow> Inl e | Inr a \<Rightarrow> Inr [a])"
    using True
    by (subst process_chunk_descending)
       (simp_all add: assms causal_backend_def Let_def split: sum.splits)
  then show ?thesis
    using True by (auto simp: scored_alone_def split: sum.splits)
qed

lemma zip5_map:
  "zip xs (zip (map f xs) (zip (map g xs) (zip (map h xs) (map k xs)))) =
   map (\<lambda>y. (y, f y, g y, h y, k y)) xs"
  by (induction xs) simp_all

lemma process_chunk_causal:
  assumes backend: "log_softmax_model_call self = causal_backend nd"
    and ne: "chunk \<noteq> []"
    and desc: "sorted_wrt (\<lambda>x y. length (request_toks y) \<le> length (request_toks x)) chunk"
  shows "process_chunk self chunk res = Inr out \<longleftrightarrow>
         (\<exists>as. out = res @ as \<and> list_all2 (scored_alone self) chunk as)"
proof (cases "\<forall>x\<in>set chunk. sanity_check (max_length self) x")
  case False
  then obtain x where x: "x \<in> set chunk" "\<not> sanity_check (max_length self) x" by blast
  from process_chunk_insane [OF this, of res] have "process_chunk self chunk res \<noteq> Inr out"
    by auto
  moreover have "\<not> list_all2 (scored_alone self) chunk as" for as
  proof
    assume all: "list_all2 (scored_alone self) chunk as"
    from x(1) obtain i where i: "i < length chunk" "chunk ! i = x"
      by (auto simp: in_set_conv_nth)
    from list_all2_nthD [OF all i(1)] have "scored_alone self x (as ! i)"
      by (simp add: i(2))
    with x(2) scored_alone_sane show False by blast
  qed
  ultimately show ?thesis by blast
next
  case True
  let ?ml = "max_length self"
  let ?P = "length (input_of ?ml (hd chunk))"
  let ?row = "\<lambda>y. input_of ?ml y @ replicate (?P - length (input_of ?ml y)) 0"
  let ?F = "\<lambda>y. (y, row_logits nd (?row y), ?row y, length (input_of ?ml y), snd (snd y))"
  have zip: "zip chunk (zip (map (\<lambda>y. row_logits nd (?row y)) chunk) (zip (map ?row chunk)
                  (zip (map (\<lambda>y. length (input_of ?ml y)) chunk) (map (\<lambda>y. snd (snd y)) chunk)))) =
             map ?F chunk"
    by (rule zip5_map)
  have pc: "process_chunk self chunk res = extract_rows (map ?F chunk) res"
    by (simp add: process_chunk_descending [OF ne True desc] backend causal_backend_def
        Let_def comp_def zip)
  have elem: "extract_answer (row_logits nd (?row y)) (length (input_of ?ml y)) (snd (snd y)) = Inr a
      \<longleftrightarrow> scored_alone self y a" if "y \<in> set chunk" for y a
  proof -
    have sane: "sanity_check ?ml y" using True that by blast
    have "extract_answer (row_logits nd (?row y)) (length (input_of ?ml y)) (snd (snd y)) =
          extract_answer (row_logits nd (input_of ?ml y)) (length (input_of ?ml y)) (snd (snd y))"
      by (rule extract_answer_padded) (rule contlen_le_inplen [OF sane])
    then show ?thesis
      using sane by (simp add: scored_alone_causal [OF backend])
  qed
  have "list_all2 (\<lambda>row a. extract_answer (fst (snd row)) (fst (snd (snd (snd row))))
            (snd (snd (snd (snd row)))) = Inr a) (map ?F chunk) as
        \<longleftrightarrow> list_all2 (scored_alone self) chunk as" for as
    using elem by (auto simp: list_all2_conv_all_nth)
  then show ?thesis
    by (simp only: pc extract_rows_iff)
qed


subsection \<open>The loop over the chunks\<close>

lemma concat_chunks: "concat (chunks n xs) = xs"
  by (induction n xs rule: chunks.induct) simp_all

lemma chunks_nonempty: "chunk \<in> set (chunks n xs) \<Longrightarrow> chunk \<noteq> []"
  by (induction n xs rule: chunks.induct) auto

lemma in_some_chunk:
  assumes "x \<in> set xs"
  shows "\<exists>chunk\<in>set (chunks n xs). x \<in> set chunk"
proof -
  have "x \<in> set (concat (chunks n xs))"
    using assms by (simp only: concat_chunks)
  then show ?thesis by auto
qed

lemma process_chunks_Cons_iff:
  "process_chunks self (c # cs) res = Inr out \<longleftrightarrow>
   (\<exists>res'. process_chunk self c res = Inr res' \<and> process_chunks self cs res' = Inr out)"
  by (auto split: sum.splits)

lemma process_chunks_fails:
  assumes "chunk \<in> set cs" and "\<forall>res. \<exists>e. process_chunk self chunk res = Inl e"
  shows "\<exists>e. process_chunks self cs res = Inl e"
  using assms(1)
proof (induction cs arbitrary: res)
  case Nil
  then show ?case by simp
next
  case (Cons c cs)
  show ?case
  proof (cases "process_chunk self c res")
    case (Inl e)
    then show ?thesis by simp
  next
    case (Inr res')
    with assms(2) have "c \<noteq> chunk" by (metis sum.distinct(1))
    with Cons.prems have "chunk \<in> set cs" by simp
    from Cons.IH [OF this, of res'] show ?thesis
      by (simp add: Inr)
  qed
qed

lemma list_all2_append_split:
  "list_all2 P (xs @ ys) zs \<longleftrightarrow>
   (\<exists>us vs. zs = us @ vs \<and> list_all2 P xs us \<and> list_all2 P ys vs)"
proof
  assume "list_all2 P (xs @ ys) zs"
  then show "\<exists>us vs. zs = us @ vs \<and> list_all2 P xs us \<and> list_all2 P ys vs"
    unfolding list_all2_append1 by blast
next
  assume "\<exists>us vs. zs = us @ vs \<and> list_all2 P xs us \<and> list_all2 P ys vs"
  then show "list_all2 P (xs @ ys) zs"
    by (auto intro: list_all2_appendI)
qed

lemma process_chunks_causal:
  assumes backend: "log_softmax_model_call self = causal_backend nd"
    and desc: "sorted_wrt (\<lambda>x y. length (request_toks y) \<le> length (request_toks x)) xs"
  shows "process_chunks self (chunks n xs) res = Inr out \<longleftrightarrow>
         (\<exists>as. out = res @ as \<and> list_all2 (scored_alone self) xs as)"
  using desc
proof (induction n xs arbitrary: res out rule: chunks.induct)
  case (1 n)
  then show ?case by auto
next
  case (2 x xs)
  have "process_chunks self (chunks 0 (x # xs)) res = process_chunk self (x # xs) res"
    by (simp split: sum.splits)
  then show ?case
    using process_chunk_causal [OF backend _ "2.prems", of res out] by simp
next
  case (3 n x xs)
  let ?R = "\<lambda>x y. length (request_toks y) \<le> length (request_toks x)"
  let ?c = "x # take n xs"
  have split: "x # xs = ?c @ drop n xs" by simp
  have "sorted_wrt ?R (?c @ drop n xs)"
    using "3.prems" by (simp only: split [symmetric])
  then have d1: "sorted_wrt ?R ?c" and d2: "sorted_wrt ?R (drop n xs)"
    by (simp_all only: sorted_wrt_append)
  have step: "process_chunks self (chunks (Suc n) (x # xs)) res = Inr out \<longleftrightarrow>
      (\<exists>res'. process_chunk self ?c res = Inr res' \<and>
             process_chunks self (chunks (Suc n) (drop n xs)) res' = Inr out)"
    by (simp only: chunks.simps process_chunks_Cons_iff)
  have c: "process_chunk self ?c res = Inr res' \<longleftrightarrow>
      (\<exists>as. res' = res @ as \<and> list_all2 (scored_alone self) ?c as)" for res'
    by (rule process_chunk_causal [OF backend _ d1]) simp
  have r: "process_chunks self (chunks (Suc n) (drop n xs)) res' = Inr out \<longleftrightarrow>
      (\<exists>as. out = res' @ as \<and> list_all2 (scored_alone self) (drop n xs) as)" for res'
    by (rule "3.IH" [OF d2])
  have l: "list_all2 (scored_alone self) (x # xs) as \<longleftrightarrow>
      (\<exists>as1 as2. as = as1 @ as2 \<and> list_all2 (scored_alone self) ?c as1 \<and>
         list_all2 (scored_alone self) (drop n xs) as2)" for as
    by (subst split) (rule list_all2_append_split)
  show ?case
    unfolding step c r l
  proof
    assume "\<exists>res'. (\<exists>as. res' = res @ as \<and> list_all2 (scored_alone self) ?c as) \<and>
        (\<exists>as. out = res' @ as \<and> list_all2 (scored_alone self) (drop n xs) as)"
    then obtain as1 as2 where "out = (res @ as1) @ as2"
        "list_all2 (scored_alone self) ?c as1" "list_all2 (scored_alone self) (drop n xs) as2"
      by blast
    then have "out = res @ (as1 @ as2) \<and> (\<exists>a b. as1 @ as2 = a @ b \<and>
        list_all2 (scored_alone self) ?c a \<and> list_all2 (scored_alone self) (drop n xs) b)"
      by auto
    then show "\<exists>as. out = res @ as \<and> (\<exists>as1 as2. as = as1 @ as2 \<and>
        list_all2 (scored_alone self) ?c as1 \<and> list_all2 (scored_alone self) (drop n xs) as2)"
      by blast
  next
    assume "\<exists>as. out = res @ as \<and> (\<exists>as1 as2. as = as1 @ as2 \<and>
        list_all2 (scored_alone self) ?c as1 \<and> list_all2 (scored_alone self) (drop n xs) as2)"
    then obtain as1 as2 where "out = res @ as1 @ as2"
        "list_all2 (scored_alone self) ?c as1" "list_all2 (scored_alone self) (drop n xs) as2"
      by blast
    then have "(\<exists>as. res @ as1 = res @ as \<and> list_all2 (scored_alone self) ?c as) \<and>
        (\<exists>as. out = (res @ as1) @ as \<and> list_all2 (scored_alone self) (drop n xs) as)"
      by auto
    then show "\<exists>res'. (\<exists>as. res' = res @ as \<and> list_all2 (scored_alone self) ?c as) \<and>
        (\<exists>as. out = res' @ as \<and> list_all2 (scored_alone self) (drop n xs) as)"
      by blast
  qed
qed

section \<open>The scoring of encoded requests\<close>

lemma reordered_descending:
  "sorted_wrt (\<lambda>x y. length (request_toks y) \<le> length (request_toks x))
     (get_reordered (Reorderer requests collate))"
  by (rule collate_sorted_descending) (rule get_reordered_sorted)

lemma loglikelihood_tokens_iff:
  "loglikelihood_tokens self requests = Inr outs \<longleftrightarrow>
   (\<exists>res. process_chunks self
            (chunks (batch_size self) (get_reordered (Reorderer requests collate))) [] = Inr res
          \<and> outs = get_original (Reorderer requests collate) res)"
  by (auto simp: loglikelihood_tokens_def Let_def split: sum.splits)

lemma loglikelihood_tokens_length:
  "loglikelihood_tokens self requests = Inr outs \<Longrightarrow> length outs = length requests"
  by (auto simp: loglikelihood_tokens_iff get_original_length)

lemma loglikelihood_tokens_causal:
  assumes backend: "log_softmax_model_call self = causal_backend nd"
  shows "loglikelihood_tokens self requests = Inr outs \<longleftrightarrow>
         length outs = length requests \<and>
         (\<forall>i<length requests. \<exists>a. outs ! i = Some a \<and> scored_alone self (requests ! i) a)"
proof -
  let ?re = "Reorderer requests collate"
  let ?arr = "ro_arr ?re"
  let ?S = "get_reordered ?re"
  let ?n = "length requests"
  have S_nth: "?S ! j = requests ! fst (?arr ! j)" and fst_lt: "fst (?arr ! j) < ?n" if "j < ?n" for j
  proof -
    have "?arr ! j \<in> set ?arr" using that by (simp add: ro_arr_length)
    from ro_arr_snd [OF this] show "?S ! j = requests ! fst (?arr ! j)" "fst (?arr ! j) < ?n"
      using that by (simp_all add: get_reordered_def ro_arr_length)
  qed
  have len_S: "length ?S = ?n"
    by (simp add: get_reordered_def ro_arr_length)
  have pcs: "process_chunks self (chunks (batch_size self) ?S) [] = Inr res \<longleftrightarrow>
      list_all2 (scored_alone self) ?S res" for res
    using process_chunks_causal [OF backend reordered_descending [of requests],
        where n = "batch_size self" and res = "[]" and out = res]
    by simp
  show ?thesis
  proof
    assume "loglikelihood_tokens self requests = Inr outs"
    then obtain res where res: "list_all2 (scored_alone self) ?S res"
      and outs: "outs = get_original ?re res"
      unfolding loglikelihood_tokens_iff pcs by blast
    have len: "length res = ?n"
      using list_all2_lengthD [OF res] by (simp add: len_S)
    have "\<exists>a. outs ! i = Some a \<and> scored_alone self (requests ! i) a" if "i < ?n" for i
    proof -
      from that obtain j where j: "j < ?n" "?arr ! j = (i, requests ! i)"
        by (rule ro_arr_position)
      have "outs ! fst (?arr ! j) = Some (res ! j)"
        unfolding outs by (rule get_original_at [OF j(1) len])
      moreover have "scored_alone self (?S ! j) (res ! j)"
        by (rule list_all2_nthD [OF res]) (simp add: len_S j(1))
      ultimately show ?thesis
        using j by (simp add: S_nth)
    qed
    then show "length outs = ?n \<and>
        (\<forall>i<?n. \<exists>a. outs ! i = Some a \<and> scored_alone self (requests ! i) a)"
      by (simp add: outs get_original_length)
  next
    assume a: "length outs = ?n \<and>
        (\<forall>i<?n. \<exists>a. outs ! i = Some a \<and> scored_alone self (requests ! i) a)"
    define res where "res = map (\<lambda>j. the (outs ! fst (?arr ! j))) [0..<?n]"
    have len: "length res = ?n" by (simp add: res_def)
    have res_nth: "outs ! fst (?arr ! j) = Some (res ! j) \<and> scored_alone self (?S ! j) (res ! j)"
      if "j < ?n" for j
    proof -
      from a fst_lt [OF that] obtain b where "outs ! fst (?arr ! j) = Some b"
          "scored_alone self (requests ! fst (?arr ! j)) b"
        by blast
      then show ?thesis
        using that by (simp add: res_def S_nth)
    qed
    have all: "list_all2 (scored_alone self) ?S res"
      using res_nth by (simp add: list_all2_conv_all_nth len len_S)
    have "outs = get_original ?re res"
    proof (rule nth_equalityI)
      show "length outs = length (get_original ?re res)"
        using a by (simp add: get_original_length)
    next
      fix i
      assume "i < length outs"
      then have "i < ?n" using a by simp
      then obtain j where j: "j < ?n" "?arr ! j = (i, requests ! i)"
        by (rule ro_arr_position)
      have "get_original ?re res ! fst (?arr ! j) = Some (res ! j)"
        by (rule get_original_at [OF j(1) len])
      with res_nth [OF j(1)] show "outs ! i = get_original ?re res ! i"
        by (simp add: j(2))
    qed
    with all show "loglikelihood_tokens self requests = Inr outs"
      unfolding loglikelihood_tokens_iff pcs by blast
  qed
qed

lemma perm_indices:
  assumes "mset p = mset [0..<n]"
  shows "length p = n" and "set p = {..<n}"
proof -
  show "length p = n"
    using assms by (metis length_upt mset_eq_length minus_nat.diff_0)
  show "set p = {..<n}"
    using assms by (metis atLeast_upt mset_eq_setD)
qed


lemma loglikelihood_tokens_permuted:
  assumes backend: "log_softmax_model_call self = causal_backend nd"
    and perm: "mset p = mset [0..<length requests]"
    and run: "loglikelihood_tokens self requests = Inr outs"
  shows "loglikelihood_tokens self (map ((!) requests) p) = Inr (map ((!) outs) p)"
proof -
  note lenp = perm_indices(1) [OF perm] and setp = perm_indices(2) [OF perm]
  from run have len: "length outs = length requests"
    and each: "\<And>i. i < length requests \<Longrightarrow>
        \<exists>a. outs ! i = Some a \<and> scored_alone self (requests ! i) a"
    unfolding loglikelihood_tokens_causal [OF backend] by simp_all
  have "\<exists>a. map ((!) outs) p ! k = Some a \<and> scored_alone self (map ((!) requests) p ! k) a"
    if "k < length p" for k
  proof -
    have "p ! k \<in> set p" using that by simp
    then have "p ! k < length requests" by (simp add: setp)
    from each [OF this] show ?thesis using that by simp
  qed
  then show ?thesis
    unfolding loglikelihood_tokens_causal [OF backend] by (simp add: lenp)
qed

lemma loglikelihood_tokens_permuted_fails:
  assumes backend: "log_softmax_model_call self = causal_backend nd"
    and perm: "mset p = mset [0..<length requests]"
    and run: "loglikelihood_tokens self requests = Inl e"
  shows "\<exists>e'. loglikelihood_tokens self (map ((!) requests) p) = Inl e'"
proof (cases "loglikelihood_tokens self (map ((!) requests) p)")
  case (Inl e')
  then show ?thesis by blast
next
  case (Inr outs')
  note lenp = perm_indices(1) [OF perm] and setp = perm_indices(2) [OF perm]
  from Inr have each: "\<And>k. k < length p \<Longrightarrow>
      \<exists>a. outs' ! k = Some a \<and> scored_alone self (requests ! (p ! k)) a"
    unfolding loglikelihood_tokens_causal [OF backend] by simp
  have "\<exists>a. scored_alone self (requests ! i) a" if "i < length requests" for i
  proof -
    from that have "i \<in> set p" by (simp add: setp)
    then obtain k where "k < length p" "p ! k = i"
      by (auto simp: in_set_conv_nth)
    with each [of k] show ?thesis by auto
  qed
  then obtain f where f: "\<And>i. i < length requests \<Longrightarrow> scored_alone self (requests ! i) (f i)"
    by metis
  have "loglikelihood_tokens self requests = Inr (map (\<lambda>i. Some (f i)) [0..<length requests])"
    unfolding loglikelihood_tokens_causal [OF backend] using f by simp
  with run show ?thesis by simp
qed

lemma sorted_distinct_key_unique:
  fixes f :: "'a \<Rightarrow> 'k::linorder"
  assumes "sorted (map f xs)" and "sorted (map f ys)" and "mset xs = mset ys"
    and "distinct (map f xs)"
  shows "xs = ys"
proof -
  have m: "mset (map f ys) = mset (map f xs)"
    using assms(3) by simp
  have "sort (map f xs) = map f ys"
    by (rule properties_for_sort [OF m assms(2)])
  moreover have "sort (map f xs) = map f xs"
    using assms(1) by (rule sort_key_id_if_sorted [where f = "\<lambda>x. x", simplified])
  ultimately have eq: "map f xs = map f ys" by simp
  have "inj_on f (set xs)"
    using assms(4) by (simp add: distinct_map)
  moreover have "set ys = set xs"
    using assms(3) by (metis mset_eq_setD)
  ultimately have "inj_on f (set xs \<union> set ys)" by simp
  with eq show ?thesis
    by (simp add: inj_on_map_eq_map)
qed

lemma mset_map_nth_perm:
  assumes "mset p = mset [0..<length xs]"
  shows "mset (map ((!) xs) p) = mset xs"
proof -
  have "mset (map ((!) xs) p) = image_mset ((!) xs) (mset p)" by simp
  also have "\<dots> = image_mset ((!) xs) (mset [0..<length xs])" by (simp only: assms)
  also have "\<dots> = mset (map ((!) xs) [0..<length xs])" by simp
  also have "\<dots> = mset xs" by (simp only: map_nth)
  finally show ?thesis .
qed

lemma map_of_zip_map_inj:
  assumes "inj_on g (insert k (set ks))"
  shows "map_of (zip (map g ks) vs) (g k) = map_of (zip ks vs) k"
  using assms
proof (induction ks arbitrary: vs)
  case Nil
  then show ?case by simp
next
  case (Cons a ks)
  show ?case
  proof (cases vs)
    case Nil
    then show ?thesis by simp
  next
    case (Cons v vs')
    have inj: "inj_on g (insert k (set ks))"
      using Cons.prems by (rule inj_on_subset) auto
    have "g k = g a \<longleftrightarrow> k = a"
      using Cons.prems by (auto simp: inj_on_def)
    then show ?thesis
      by (simp add: Cons Cons.IH [OF inj])
  qed
qed


lemma get_reordered_permuted_distinct:
  fixes fn :: "'a \<Rightarrow> 'k::linorder"
  assumes perm: "mset p = mset [0..<length items]" and dk: "distinct (map fn items)"
  shows "get_reordered (Reorderer (map ((!) items) p) fn) = get_reordered (Reorderer items fn)"
proof (rule sorted_distinct_key_unique [where f = fn])
  show "sorted (map fn (get_reordered (Reorderer (map ((!) items) p) fn)))"
    by (rule get_reordered_sorted)
  show "sorted (map fn (get_reordered (Reorderer items fn)))"
    by (rule get_reordered_sorted)
  show "mset (get_reordered (Reorderer (map ((!) items) p) fn)) =
        mset (get_reordered (Reorderer items fn))"
    by (simp only: get_reordered_mset mset_map_nth_perm [OF perm])
  have "mset (get_reordered (Reorderer (map ((!) items) p) fn)) = mset items"
    by (simp only: get_reordered_mset mset_map_nth_perm [OF perm])
  from arg_cong [OF this, of "image_mset fn"]
  have "mset (map fn (get_reordered (Reorderer (map ((!) items) p) fn))) = mset (map fn items)"
    by simp
  then show "distinct (map fn (get_reordered (Reorderer (map ((!) items) p) fn)))"
    using dk by (metis mset_eq_imp_distinct_iff)
qed

lemma get_original_permuted_distinct:
  fixes fn :: "'a \<Rightarrow> 'k::linorder" and res :: "'b list"
  assumes perm: "mset p = mset [0..<length items]" and dk: "distinct (map fn items)"
  shows "get_original (Reorderer (map ((!) items) p) fn) res =
         map ((!) (get_original (Reorderer items fn) res)) p"
proof -
  let ?items' = "map ((!) items) p"
  let ?arr = "ro_arr (Reorderer items fn)"
  let ?arr' = "ro_arr (Reorderer ?items' fn)"
  let ?n = "length items"
  note lenp = perm_indices(1) [OF perm] and setp = perm_indices(2) [OF perm]
  have dp: "distinct p"
    using perm by (metis distinct_upt mset_eq_imp_distinct_iff)
  have di: "distinct items"
    using dk by (simp add: distinct_map)
  have S: "map snd ?arr' = map snd ?arr"
    using get_reordered_permuted_distinct [OF perm dk] by (simp add: get_reordered_def)
  have fst': "fst (?arr' ! j) < ?n" and fst_eq: "fst (?arr ! j) = p ! fst (?arr' ! j)"
    if j: "j < ?n" for j
  proof -
    have "?arr ! j \<in> set ?arr" using j by (simp add: ro_arr_length)
    from ro_arr_snd [OF this]
    have a: "fst (?arr ! j) < ?n" "snd (?arr ! j) = items ! fst (?arr ! j)" by simp_all
    have "?arr' ! j \<in> set ?arr'" using j by (simp add: ro_arr_length lenp)
    from ro_arr_snd [OF this]
    have a': "fst (?arr' ! j) < ?n" "snd (?arr' ! j) = ?items' ! fst (?arr' ! j)"
      by (simp_all add: lenp)
    show "fst (?arr' ! j) < ?n" by (rule a'(1))
    have "p ! fst (?arr' ! j) \<in> set p"
      using a'(1) by (simp add: lenp)
    then have lt: "p ! fst (?arr' ! j) < ?n" by (simp add: setp)
    have "snd (?arr' ! j) = snd (?arr ! j)"
      using arg_cong [OF S, of "\<lambda>xs. xs ! j"] j by (simp add: ro_arr_length lenp)
    then have "items ! (p ! fst (?arr' ! j)) = items ! fst (?arr ! j)"
      using a a' by (simp add: lenp)
    then show "fst (?arr ! j) = p ! fst (?arr' ! j)"
      using nth_eq_iff_index_eq [OF di lt a(1)] by simp
  qed
  have idx: "map fst ?arr = map ((!) p) (map fst ?arr')"
    by (rule nth_equalityI) (simp_all add: ro_arr_length lenp fst_eq)
  have "i < ?n" if "i \<in> set (map fst ?arr')" for i
  proof -
    from that obtain j where "j < length ?arr'" "fst (?arr' ! j) = i"
      by (auto simp: in_set_conv_nth)
    with fst' [of j] show ?thesis
      by (simp add: ro_arr_length lenp)
  qed
  then have sub: "set (map fst ?arr') \<subseteq> {..<?n}"
    by blast
  show ?thesis
  proof (rule nth_equalityI)
    show "length (get_original (Reorderer ?items' fn) res) =
          length (map ((!) (get_original (Reorderer items fn) res)) p)"
      by (simp add: get_original_length)
  next
    fix k
    assume "k < length (get_original (Reorderer ?items' fn) res)"
    then have k: "k < ?n" by (simp add: get_original_length lenp)
    then have "p ! k \<in> set p" by (simp add: lenp)
    then have pk: "p ! k < ?n" by (simp add: setp)
    have "inj_on ((!) p) {..<?n}"
      by (rule inj_on_nth [OF dp]) (simp add: lenp)
    then have inj: "inj_on ((!) p) (insert k (set (map fst ?arr')))"
      by (rule inj_on_subset) (use sub k in auto)
    have "get_original (Reorderer ?items' fn) res ! k = map_of (zip (map fst ?arr') res) k"
      by (rule get_original_nth) (simp add: lenp k)
    also have "\<dots> = map_of (zip (map ((!) p) (map fst ?arr')) res) (p ! k)"
      by (rule map_of_zip_map_inj [OF inj, symmetric])
    also have "\<dots> = get_original (Reorderer items fn) res ! (p ! k)"
      by (simp only: idx [symmetric] get_original_nth [OF pk])
    finally show "get_original (Reorderer ?items' fn) res ! k =
        map ((!) (get_original (Reorderer items fn) res)) p ! k"
      using k by (simp add: lenp)
  qed
qed

lemma loglikelihood_tokens_permuted_distinct:
  assumes perm: "mset p = mset [0..<length requests]" and dk: "distinct (map collate requests)"
  shows "loglikelihood_tokens self (map ((!) requests) p) =
         (case loglikelihood_tokens self requests of
            Inl e \<Rightarrow> Inl e
          | Inr outs \<Rightarrow> Inr (map ((!) outs) p))"
  by (simp add: loglikelihood_tokens_def Let_def get_reordered_permuted_distinct [OF perm dk]
      get_original_permuted_distinct [OF perm dk] split: sum.splits)

text \<open>
  C3. For every list of items, every key and every function \<open>f\<close> on the items,
  \<^verbatim>\<open>get_original\<close> applied to the results of \<open>f\<close> on the reordered items gives
  the results of \<open>f\<close> on the items in the caller's order. For the scoring of encoded
  requests, on a causal backend or when no two requests have the same sort key: the call
  on a permutation of the requests succeeds with the results permuted in the same way,
  and a call that fails fails on every permutation of its requests. On a causal backend
  the result at every position is the answer that the request at this position gets on
  its own.
\<close>

theorem order_restored:
  assumes "mset p = mset [0..<length requests]"
    and "(\<exists>next_dist. log_softmax_model_call self = causal_backend next_dist)
         \<or> distinct (map collate requests)"
  shows "get_original (Reorderer items fn) (map f (get_reordered (Reorderer items fn))) =
           map (\<lambda>x. Some (f x)) items
         \<and> (\<forall>outs. loglikelihood_tokens self requests = Inr outs \<longrightarrow>
               loglikelihood_tokens self (map ((!) requests) p) = Inr (map ((!) outs) p))
         \<and> ((\<exists>e. loglikelihood_tokens self requests = Inl e) \<longrightarrow>
               (\<exists>e. loglikelihood_tokens self (map ((!) requests) p) = Inl e))
         \<and> ((\<exists>next_dist. log_softmax_model_call self = causal_backend next_dist) \<longrightarrow>
               (\<forall>outs. loglikelihood_tokens self requests = Inr outs \<longrightarrow>
                  (\<forall>i<length requests.
                     \<exists>a. outs ! i = Some a \<and> scored_alone self (requests ! i) a)))"
proof -
  have 1: "get_original (Reorderer items fn) (map f (get_reordered (Reorderer items fn))) =
        map (\<lambda>x. Some (f x)) items"
    by (rule get_original_get_reordered)
  have 2: "loglikelihood_tokens self (map ((!) requests) p) = Inr (map ((!) outs) p)"
    if run: "loglikelihood_tokens self requests = Inr outs" for outs
    using assms(2)
  proof
    assume "\<exists>next_dist. log_softmax_model_call self = causal_backend next_dist"
    then obtain nd where "log_softmax_model_call self = causal_backend nd" by blast
    then show ?thesis
      using assms(1) run by (rule loglikelihood_tokens_permuted)
  next
    assume "distinct (map collate requests)"
    from loglikelihood_tokens_permuted_distinct [OF assms(1) this, of self] run
    show ?thesis by simp
  qed
  have 3: "\<exists>e. loglikelihood_tokens self (map ((!) requests) p) = Inl e"
    if "\<exists>e. loglikelihood_tokens self requests = Inl e"
  proof -
    from that obtain e where run: "loglikelihood_tokens self requests = Inl e" by blast
    from assms(2) show ?thesis
    proof
      assume "\<exists>next_dist. log_softmax_model_call self = causal_backend next_dist"
      then obtain nd where "log_softmax_model_call self = causal_backend nd" by blast
      then show ?thesis
        using assms(1) run by (rule loglikelihood_tokens_permuted_fails)
    next
      assume "distinct (map collate requests)"
      from loglikelihood_tokens_permuted_distinct [OF assms(1) this, of self] run
      show ?thesis by simp
    qed
  qed
  have 4: "\<forall>i<length requests. \<exists>a. outs ! i = Some a \<and> scored_alone self (requests ! i) a"
    if "\<exists>next_dist. log_softmax_model_call self = causal_backend next_dist"
      and run: "loglikelihood_tokens self requests = Inr outs" for outs
  proof -
    from that(1) obtain nd where "log_softmax_model_call self = causal_backend nd" by blast
    from run show ?thesis
      unfolding loglikelihood_tokens_causal [OF \<open>log_softmax_model_call self = causal_backend nd\<close>]
      by simp
  qed
  from 1 2 3 4 show ?thesis by blast
qed

theorem order_restored_witness:
  "log_softmax_model_call toy_lm = causal_backend toy_next_dist
   \<and> mset [1, 0] = mset [0..<length [(None, [2], [3]), (None, [2, 3], [1 :: nat]) :: request]]
   \<and> distinct (map collate [(None, [2], [3]), (None, [2, 3], [2, 2, 2, 2])])
   \<and> loglikelihood_tokens toy_lm [(None, [2], [3]), (None, [2, 3], [1])] =
       Inr [Some (- 4, False), Some (- 3, False)]
   \<and> loglikelihood_tokens toy_lm (map ((!) [(None, [2], [3]), (None, [2, 3], [1])]) [1, 0]) =
       Inr [Some (- 3, False), Some (- 4, False)]
   \<and> loglikelihood_tokens toy_lm [(None, [2], [3]), (None, [2, 3], [2, 2, 2, 2])] = Inl AssertionError
   \<and> loglikelihood_tokens toy_lm (map ((!) [(None, [2], [3]), (None, [2, 3], [2, 2, 2, 2])]) [1, 0]) =
       Inl AssertionError"
proof -
  let ?reqs = "[(None, [2], [3]), (None, [2, 3], [1])] :: request list"
  let ?bad = "[(None, [2], [3]), (None, [2, 3], [2, 2, 2, 2])] :: request list"
  have h1: "log_softmax_model_call toy_lm = causal_backend toy_next_dist"
    by (simp add: toy_lm_def)
  then have c: "(\<exists>next_dist. log_softmax_model_call toy_lm = causal_backend next_dist)
      \<or> distinct (map collate ?reqs)"
    by blast
  have dk: "distinct (map collate ?bad)"
    by code_simp
  then have d: "(\<exists>next_dist. log_softmax_model_call toy_lm = causal_backend next_dist)
      \<or> distinct (map collate ?bad)"
    by blast
  have h2: "mset [1, 0] = mset [0..<length ?reqs]" and h2': "mset [1, 0] = mset [0..<length ?bad]"
    by (simp_all add: upt_rec)
  have run: "loglikelihood_tokens toy_lm ?reqs = Inr [Some (- 4, False), Some (- 3, False)]"
    by code_simp
  have bad: "loglikelihood_tokens toy_lm ?bad = Inl AssertionError"
    by code_simp
  have bad': "loglikelihood_tokens toy_lm (map ((!) ?bad) [1, 0]) = Inl AssertionError"
    by code_simp
  from order_restored [OF h2 c, of "[]" "\<lambda>x. x :: nat" "\<lambda>x. x :: nat"] run
  have "loglikelihood_tokens toy_lm (map ((!) ?reqs) [1, 0]) =
      Inr (map ((!) [Some (- 4, False), Some (- 3, False)]) [1, 0])"
    by blast
  then have run': "loglikelihood_tokens toy_lm (map ((!) ?reqs) [1, 0]) =
      Inr [Some (- 3, False), Some (- 4, False)]"
    by simp
  from order_restored [OF h2' d, of "[]" "\<lambda>x. x :: nat" "\<lambda>x. x :: nat"] bad
  have "\<exists>e. loglikelihood_tokens toy_lm (map ((!) ?bad) [1, 0]) = Inl e"
    by blast
  with bad' have bad'': "loglikelihood_tokens toy_lm (map ((!) ?bad) [1, 0]) = Inl AssertionError"
    by simp
  show ?thesis
    by (intro conjI) (rule h1 h2 dk run run' bad bad'')+
qed

section \<open>Requests that cannot be scored\<close>

lemma bad_continuation_insane:
  assumes "snd (snd x) = [] \<or> ml < int (length (snd (snd x)))"
  shows "\<not> sanity_check ml x"
  using assms by (auto simp: sanity_check_def)

text \<open>
  C8. When a request of the call has an empty continuation, or a continuation longer
  than the maximal length, the assembly of every chunk that contains the request fails,
  and its failure is the result of the processing of this chunk, before any forward
  pass for it; the call as a whole returns a failure, never a list of results, and so
  does \<^verbatim>\<open>loglikelihood\<close> when the request is the encoding of one of its
  requests.
\<close>

theorem bad_continuation_aborts:
  assumes "x \<in> set requests"
    and "snd (snd x) = [] \<or> max_length self < int (length (snd (snd x)))"
  shows "(\<exists>e. loglikelihood_tokens self requests = Inl e)
         \<and> (\<forall>chunk res. x \<in> set chunk \<longrightarrow>
               (\<exists>e. assemble_rows (max_length self) chunk ([], [], [], None) = Inl e
                    \<and> process_chunk self chunk res = Inl e))
         \<and> (\<forall>ll_requests. requests = map (encode_request self) ll_requests \<longrightarrow>
               (\<exists>e. loglikelihood self ll_requests = Inl e))"
proof -
  have insane: "\<not> sanity_check (max_length self) x"
    by (rule bad_continuation_insane [OF assms(2)])
  have chunk: "\<exists>e. assemble_rows (max_length self) chunk ([], [], [], None) = Inl e
      \<and> process_chunk self chunk res = Inl e" if "x \<in> set chunk" for chunk res
    by (rule process_chunk_insane [OF that insane])
  let ?S = "get_reordered (Reorderer requests collate)"
  have "set ?S = set requests"
    by (rule mset_eq_setD) (rule get_reordered_mset)
  with assms(1) have "x \<in> set ?S" by simp
  from in_some_chunk [OF this, of "batch_size self"]
  obtain c where c: "c \<in> set (chunks (batch_size self) ?S)" "x \<in> set c"
    by blast
  have "\<forall>res. \<exists>e. process_chunk self c res = Inl e"
    using chunk [OF c(2)] by blast
  from process_chunks_fails [OF c(1) this, of "[]"]
  have fails: "\<exists>e. loglikelihood_tokens self requests = Inl e"
    by (auto simp: loglikelihood_tokens_def Let_def)
  have "\<exists>e. loglikelihood self ll_requests = Inl e"
    if "requests = map (encode_request self) ll_requests" for ll_requests
    using fails that by (auto simp: loglikelihood_def)
  with fails chunk show ?thesis by blast
qed

theorem bad_continuation_aborts_witness:
  "(None, [2, 3], [2, 2, 2, 2]) \<in> set [(None, [2], [3]), (None, [2, 3], [2, 2, 2, 2]) :: request]
   \<and> max_length toy_lm < int (length (snd (snd ((None, [2, 3], [2, 2, 2, 2]) :: request))))
   \<and> loglikelihood_tokens toy_lm [(None, [2], [3]), (None, [2, 3], [2, 2, 2, 2])] = Inl AssertionError
   \<and> assemble_rows (max_length toy_lm) [(None, [2, 3], [2, 2, 2, 2])] ([], [], [], None) =
       Inl AssertionError
   \<and> loglikelihood toy_lm [\<lparr>req_inps = (''a'', ''abcd''), req_resps = None\<rparr>] =
       Inl AssertionError"
proof -
  let ?q = "\<lparr>req_inps = (''a'', ''abcd''), req_resps = None\<rparr>"
  have q1: "encode_request toy_lm ?q \<in> set (map (encode_request toy_lm) [?q])"
    by simp
  have "max_length toy_lm < int (length (snd (snd (encode_request toy_lm ?q))))"
    by code_simp
  then have q2: "snd (snd (encode_request toy_lm ?q)) = []
      \<or> max_length toy_lm < int (length (snd (snd (encode_request toy_lm ?q))))"
    by (rule disjI2)
  from bad_continuation_aborts [OF q1 q2]
  obtain e' where e': "loglikelihood toy_lm [?q] = Inl e'"
    by blast
  have "loglikelihood toy_lm [?q] = Inl AssertionError"
    by code_simp
  with e' have pub: "loglikelihood toy_lm [?q] = Inl AssertionError"
    by simp
  let ?x = "(None, [2, 3], [2, 2, 2, 2]) :: request"
  let ?reqs = "[(None, [2], [3]), ?x] :: request list"
  have h1: "?x \<in> set ?reqs" by simp
  have h2': "max_length toy_lm < int (length (snd (snd ?x)))"
    by (simp add: toy_lm_def)
  then have h2: "snd (snd ?x) = [] \<or> max_length toy_lm < int (length (snd (snd ?x)))"
    by (rule disjI2)
  have ev: "loglikelihood_tokens toy_lm ?reqs = Inl AssertionError"
    by code_simp
  have ev': "assemble_rows (max_length toy_lm) [?x] ([], [], [], None) = Inl AssertionError"
    by code_simp
  from bad_continuation_aborts [OF h1 h2] obtain e where e: "loglikelihood_tokens toy_lm ?reqs = Inl e"
    by blast
  with ev have "e = AssertionError" by simp
  with e have run: "loglikelihood_tokens toy_lm ?reqs = Inl AssertionError" by simp
  show ?thesis
    by (intro conjI) (rule h1 h2' run ev' pub)+
qed

section \<open>Padding does not reach the answers\<close>

text \<open>
  C5. The answer extracted for a row is the same for two log-softmax outputs that
  have at least \<open>inplen\<close> positions and agree on the positions
  \<open>[inplen - contlen, inplen)\<close>: what stands at other positions, at the padded
  positions \<open>inplen\<close> and beyond in particular, does not reach the answer. Hence a
  request scored as the only row of a batch and the same request scored as the second
  row after a longer request, padded to its length, get the same answer whenever the
  two outputs of the backend for the request agree on these positions.
\<close>

theorem padding_noninterference:
  "(length cont_toks \<le> inplen \<and> inplen \<le> length logits \<and> inplen \<le> length logits'
      \<and> (\<forall>p. inplen - length cont_toks \<le> p \<and> p < inplen \<longrightarrow> logits ! p = logits' ! p)
    \<longrightarrow> extract_answer logits inplen cont_toks = extract_answer logits' inplen cont_toks)
   \<and> (sanity_check (max_length self) r \<and> sanity_check (max_length self) big
      \<and> length (request_toks r) \<le> length (request_toks big)
      \<and> log_softmax_model_call self [input_of (max_length self) r] = Inr [alone_logits]
      \<and> log_softmax_model_call self
           [input_of (max_length self) big,
            input_of (max_length self) r @
              replicate (length (input_of (max_length self) big) -
                         length (input_of (max_length self) r)) 0] =
          Inr [big_logits, batched_logits]
      \<and> length (input_of (max_length self) r) \<le> length alone_logits
      \<and> length (input_of (max_length self) r) \<le> length batched_logits
      \<and> (\<forall>p. length (input_of (max_length self) r) - length (snd (snd r)) \<le> p
              \<and> p < length (input_of (max_length self) r)
            \<longrightarrow> alone_logits ! p = batched_logits ! p)
      \<and> extract_answer big_logits (length (input_of (max_length self) big)) (snd (snd big)) =
          Inr a_big
    \<longrightarrow> (process_chunk self [r] [] = Inr [a] \<longleftrightarrow>
         process_chunk self [big, r] [] = Inr [a_big, a]))"
proof (intro conjI impI)
  assume "length cont_toks \<le> inplen \<and> inplen \<le> length logits \<and> inplen \<le> length logits'
      \<and> (\<forall>p. inplen - length cont_toks \<le> p \<and> p < inplen \<longrightarrow> logits ! p = logits' ! p)"
  then show "extract_answer logits inplen cont_toks = extract_answer logits' inplen cont_toks"
    using extract_answer_cong by blast
next
  let ?ml = "max_length self"
  let ?il = "length (input_of ?ml r)"
  let ?pad = "input_of ?ml r @ replicate (length (input_of ?ml big) - ?il) 0"
  assume a: "sanity_check ?ml r \<and> sanity_check ?ml big
      \<and> length (request_toks r) \<le> length (request_toks big)
      \<and> log_softmax_model_call self [input_of ?ml r] = Inr [alone_logits]
      \<and> log_softmax_model_call self [input_of ?ml big, ?pad] = Inr [big_logits, batched_logits]
      \<and> ?il \<le> length alone_logits
      \<and> ?il \<le> length batched_logits
      \<and> (\<forall>p. ?il - length (snd (snd r)) \<le> p \<and> p < ?il \<longrightarrow> alone_logits ! p = batched_logits ! p)
      \<and> extract_answer big_logits (length (input_of ?ml big)) (snd (snd big)) = Inr a_big"
  have eq: "extract_answer alone_logits ?il (snd (snd r)) =
        extract_answer batched_logits ?il (snd (snd r))"
    by (rule extract_answer_cong) (use a contlen_le_inplen [of ?ml r] in simp_all)
  have alone: "process_chunk self [r] [] =
      (case extract_answer alone_logits ?il (snd (snd r)) of Inl e \<Rightarrow> Inl e | Inr b \<Rightarrow> Inr [b])"
    using a by (subst process_chunk_descending) (simp_all add: Let_def split: sum.splits)
  have both: "process_chunk self [big, r] [] =
      (case extract_answer batched_logits ?il (snd (snd r)) of
         Inl e \<Rightarrow> Inl e | Inr b \<Rightarrow> Inr [a_big, b])"
    using a by (subst process_chunk_descending) (simp_all add: Let_def split: sum.splits)
  show "process_chunk self [r] [] = Inr [a] \<longleftrightarrow> process_chunk self [big, r] [] = Inr [a_big, a]"
    unfolding alone both eq by (auto split: sum.splits)
qed


theorem padding_noninterference_witness:
  "extract_answer [[- 1, - 2, - 3, - 4]] 1 [3] =
     extract_answer [[- 1, - 2, - 3, - 4], [- 9, - 9, - 9, - 9]] 1 [3]
   \<and> process_chunk toy_lm [(None, [2], [3])] [] = Inr [(- 4, False)]
   \<and> process_chunk toy_lm [(None, [2, 3], [1]), (None, [2], [3])] [] =
       Inr [(- 3, False), (- 4, False)]"
proof -
  let ?r = "(None, [2], [3]) :: request"
  let ?big = "(None, [2, 3], [1]) :: request"
  let ?alone = "[[- 1, - 2, - 3, - 4]] :: real list list"
  let ?batched = "[[- 1, - 2, - 3, - 4], [- 1, - 2, - 3, - 4]] :: real list list"
  let ?bigl = "[[- 1, - 2, - 3, - 4], [- 4, - 3, - 2, - 1]] :: real list list"
  let ?padded = "[[- 1, - 2, - 3, - 4], [- 9, - 9, - 9, - 9]] :: real list list"
  let ?ml = "max_length toy_lm"
  note T = padding_noninterference [where cont_toks = "[3]" and inplen = 1
      and logits = ?alone and logits' = ?padded and self = toy_lm and r = ?r and big = ?big
      and alone_logits = ?alone and big_logits = ?bigl and batched_logits = ?batched
      and a_big = "(- 3, False)" and a = "(- 4, False)"]
  have p1: "extract_answer ?alone 1 [3] = extract_answer ?padded 1 [3]"
    using T [THEN conjunct1] by simp
  have ir: "input_of ?ml ?r = [2]" and ib: "input_of ?ml ?big = [2, 3]"
    by code_simp+
  have s1: "sanity_check ?ml ?r" and s2: "sanity_check ?ml ?big"
    by code_simp+
  have le: "length (request_toks ?r) \<le> length (request_toks ?big)"
    by code_simp
  have m1: "log_softmax_model_call toy_lm [input_of ?ml ?r] = Inr [?alone]"
    by code_simp
  have m2: "log_softmax_model_call toy_lm
      [input_of ?ml ?big,
       input_of ?ml ?r @ replicate (length (input_of ?ml ?big) - length (input_of ?ml ?r)) 0] =
      Inr [?bigl, ?batched]"
    by code_simp
  have l1: "length (input_of ?ml ?r) \<le> length ?alone"
    and l2: "length (input_of ?ml ?r) \<le> length ?batched"
    by (simp_all add: ir)
  have ag: "\<forall>p. length (input_of ?ml ?r) - length (snd (snd ?r)) \<le> p
        \<and> p < length (input_of ?ml ?r) \<longrightarrow> ?alone ! p = ?batched ! p"
    by (simp add: ir)
  have eb: "extract_answer ?bigl (length (input_of ?ml ?big)) (snd (snd ?big)) = Inr (- 3, False)"
    by code_simp
  have alone: "process_chunk toy_lm [?r] [] = Inr [(- 4, False)]"
    by code_simp
  have "process_chunk toy_lm [?r] [] = Inr [(- 4, False)] \<longleftrightarrow>
      process_chunk toy_lm [?big, ?r] [] = Inr [(- 3, False), (- 4, False)]"
    by (rule T [THEN conjunct2, rule_format]) (intro conjI s1 s2 le m1 m2 l1 l2 ag eb)
  with alone have p2: "process_chunk toy_lm [?big, ?r] [] = Inr [(- 3, False), (- 4, False)]"
    by simp
  show ?thesis
    by (intro conjI) (rule p1 alone p2)+
qed

section \<open>Rolling scoring\<close>

lemma discard_is_greedy_Some: "discard_is_greedy (map Some xs) = Inr (map fst xs)"
  by (induction xs) simp_all

lemma rolling_loop_scores:
  assumes "\<forall>d\<in>set docs. \<exists>w.
      rolling_windows self (tok_encode self d) (eot_token_id self) (max_length self) 1 = Inr w
      \<and> loglikelihood_tokens self (map (\<lambda>x. (None, fst x, snd x)) w) = Inr (map Some (scores d))"
  shows "rolling_loop self docs acc = Inr (acc @ map (\<lambda>d. sum_list (map fst (scores d))) docs)"
  using assms
proof (induction docs arbitrary: acc)
  case Nil
  then show ?case by simp
next
  case (Cons d docs)
  from Cons.prems obtain w where
    w: "rolling_windows self (tok_encode self d) (eot_token_id self) (max_length self) 1 = Inr w"
    and ll: "loglikelihood_tokens self (map (\<lambda>x. (None, fst x, snd x)) w) = Inr (map Some (scores d))"
    by auto
  from Cons.prems have rest: "\<forall>d\<in>set docs. \<exists>w.
      rolling_windows self (tok_encode self d) (eot_token_id self) (max_length self) 1 = Inr w
      \<and> loglikelihood_tokens self (map (\<lambda>x. (None, fst x, snd x)) w) = Inr (map Some (scores d))"
    by simp
  show ?case
    using w ll by (simp add: discard_is_greedy_Some Cons.IH [OF rest] Let_def)
qed

lemma rolling_loop_fails_at:
  "rolling_loop self docs acc = Inl e \<Longrightarrow> rolling_loop self docs acc' = Inl e"
  by (induction docs arbitrary: acc acc') (auto simp: Let_def split: sum.splits)

text \<open>
  C9. When the windows of every document are produced and scored, each window with an
  answer, the rolling scoring computes, in the order of the documents, one number per
  document: the sum of the log-probabilities of the answers of the windows of the
  document. The greedy flags of the answers do not enter the result. A sequence object
  that accepts the assignment receives this list as its \<^verbatim>\<open>resps\<close>.
\<close>

theorem rolling_scores:
  assumes "\<forall>d\<in>set docs. \<exists>w.
      rolling_windows self (tok_encode self d) (eot_token_id self) (max_length self) 1 = Inr w
      \<and> loglikelihood_tokens self (map (\<lambda>x. (None, fst x, snd x)) w) = Inr (map Some (scores d))"
  shows "rolling_loop self docs [] = Inr (map (\<lambda>d. sum_list (map fst (scores d))) docs)
         \<and> loglikelihood_rolling self (Sequence_object docs old) =
             Inr ((), Sequence_object docs (Some (map (\<lambda>d. sum_list (map fst (scores d))) docs)))"
  using rolling_loop_scores [OF assms, of "[]"]
  by (simp add: loglikelihood_rolling_def)

theorem rolling_scores_witness:
  "rolling_windows toy_lm (tok_encode toy_lm ''abcd'') (eot_token_id toy_lm) (max_length toy_lm) 1 =
     Inr [([0], [1, 2, 3]), ([3], [0])]
   \<and> loglikelihood_tokens toy_lm [(None, [0], [1, 2, 3]), (None, [3], [0])] =
       Inr [Some (- 5, False), Some (- 4, False)]
   \<and> rolling_windows toy_lm (tok_encode toy_lm ''b'') (eot_token_id toy_lm) (max_length toy_lm) 1 =
     Inr [([0], [2])]
   \<and> loglikelihood_tokens toy_lm [(None, [0], [2])] = Inr [Some (- 3, False)]
   \<and> rolling_loop toy_lm [''abcd'', ''b''] [] = Inr [- 5 + - 4, - 3]
   \<and> loglikelihood_rolling toy_lm (Sequence_object [''abcd'', ''b''] None) =
       Inr ((), Sequence_object [''abcd'', ''b''] (Some [- 5 + - 4, - 3]))"
proof -
  let ?scores = "\<lambda>d. if d = ''abcd'' then [(- 5, False), (- 4, False)] else [(- 3 :: real, False)]"
  have w1: "rolling_windows toy_lm (tok_encode toy_lm ''abcd'') (eot_token_id toy_lm)
      (max_length toy_lm) 1 = Inr [([0], [1, 2, 3]), ([3], [0])]"
    by code_simp
  have w2: "rolling_windows toy_lm (tok_encode toy_lm ''b'') (eot_token_id toy_lm)
      (max_length toy_lm) 1 = Inr [([0], [2])]"
    by code_simp
  have l1: "loglikelihood_tokens toy_lm [(None, [0], [1, 2, 3]), (None, [3], [0])] =
      Inr [Some (- 5, False), Some (- 4, False)]"
    by code_simp
  have l2: "loglikelihood_tokens toy_lm [(None, [0], [2])] = Inr [Some (- 3, False)]"
    by code_simp
  have h: "\<forall>d\<in>set [''abcd'', ''b'']. \<exists>w.
      rolling_windows toy_lm (tok_encode toy_lm d) (eot_token_id toy_lm) (max_length toy_lm) 1 = Inr w
      \<and> loglikelihood_tokens toy_lm (map (\<lambda>x. (None, fst x, snd x)) w) = Inr (map Some (?scores d))"
    using w1 w2 l1 l2 by simp
  from rolling_scores [OF h, of None]
  have loop: "rolling_loop toy_lm [''abcd'', ''b''] [] = Inr [- 5 + - 4, - 3]"
    and call: "loglikelihood_rolling toy_lm (Sequence_object [''abcd'', ''b''] None) =
       Inr ((), Sequence_object [''abcd'', ''b''] (Some [- 5 + - 4, - 3]))"
    by simp_all
  show ?thesis
    by (intro conjI) (rule w1 l1 w2 l2 loop call)+
qed

section \<open>What the entry points leave behind\<close>

lemma write_back_by_index:
  assumes "length resps = length requests"
  shows "map (\<lambda>(req, resp). req\<lparr>req_resps := resp\<rparr>) (zip requests resps) =
         map (\<lambda>i. (requests ! i)\<lparr>req_resps := resps ! i\<rparr>) [0..<length requests]"
  by (rule nth_equalityI) (simp_all add: assms)

text \<open>
  C10. When the scoring of the encoded requests succeeds, \<^verbatim>\<open>loglikelihood\<close>
  returns \<^verbatim>\<open>None\<close> and leaves every request with the result that
  \<^verbatim>\<open>_loglikelihood_tokens\<close> gives at the position of the request in its response
  slot, the inputs of the requests unchanged; there are as many results as requests.
  On a causal backend the result at a position is the answer that the encoding of the
  request at this position gets on its own. A failure of the scoring is the failure of
  the call, and the call returns in no other way. \<^verbatim>\<open>loglikelihood_rolling\<close>
  never returns on a builtin list: when the loop over the documents fails the call
  fails in the same way, and when the loop has computed the numbers of all documents
  the assignment of the list to the attribute \<^verbatim>\<open>resps\<close> of the argument raises
  \<^verbatim>\<open>AttributeError\<close>. On a sequence object that accepts the assignment the call
  returns \<^verbatim>\<open>None\<close> and the whole list is the one attribute \<^verbatim>\<open>resps\<close> of the
  object.
\<close>

theorem results_by_mutation:
  "(\<forall>resps. loglikelihood_tokens self (map (encode_request self) requests) = Inr resps \<longrightarrow>
      length resps = length requests
      \<and> loglikelihood self requests =
          Inr ((), map (\<lambda>i. (requests ! i)\<lparr>req_resps := resps ! i\<rparr>) [0..<length requests]))
   \<and> ((\<exists>next_dist. log_softmax_model_call self = causal_backend next_dist) \<longrightarrow>
        (\<forall>resps. loglikelihood_tokens self (map (encode_request self) requests) = Inr resps \<longrightarrow>
           (\<forall>i<length requests.
              \<exists>a. resps ! i = Some a \<and> scored_alone self (encode_request self (requests ! i)) a)))
   \<and> (\<forall>e. loglikelihood_tokens self (map (encode_request self) requests) = Inl e \<longrightarrow>
          loglikelihood self requests = Inl e)
   \<and> (\<forall>u requests'. loglikelihood self requests = Inr (u, requests') \<longrightarrow>
      u = () \<and> length requests' = length requests
      \<and> (\<exists>resps. loglikelihood_tokens self (map (encode_request self) requests) = Inr resps
            \<and> length resps = length requests
            \<and> (\<forall>i<length requests.
                  req_inps (requests' ! i) = req_inps (requests ! i)
                  \<and> req_resps (requests' ! i) = resps ! i)))
   \<and> (\<forall>v. loglikelihood_rolling self (Builtin_list docs) \<noteq> Inr v)
   \<and> (\<forall>e. rolling_loop self docs [] = Inl e \<longrightarrow>
          loglikelihood_rolling self (Builtin_list docs) = Inl e
          \<and> loglikelihood_rolling self (Sequence_object docs old) = Inl e)
   \<and> (\<forall>loglikelihoods. rolling_loop self docs [] = Inr loglikelihoods \<longrightarrow>
          loglikelihood_rolling self (Builtin_list docs) = Inl AttributeError
          \<and> loglikelihood_rolling self (Sequence_object docs old) =
              Inr ((), Sequence_object docs (Some loglikelihoods)))"
proof -
  let ?enc = "map (encode_request self) requests"
  have 0: "length resps = length requests
      \<and> loglikelihood self requests =
          Inr ((), map (\<lambda>i. (requests ! i)\<lparr>req_resps := resps ! i\<rparr>) [0..<length requests])"
    if ll: "loglikelihood_tokens self ?enc = Inr resps" for resps
  proof -
    have len: "length resps = length requests"
      using loglikelihood_tokens_length [OF ll] by simp
    have "loglikelihood self requests =
        Inr ((), map (\<lambda>(req, resp). req\<lparr>req_resps := resp\<rparr>) (zip requests resps))"
      by (simp add: loglikelihood_def ll)
    with len show ?thesis
      by (simp only: write_back_by_index [OF len] simp_thms)
  qed
  have c: "\<forall>i<length requests.
      \<exists>a. resps ! i = Some a \<and> scored_alone self (encode_request self (requests ! i)) a"
    if "\<exists>next_dist. log_softmax_model_call self = causal_backend next_dist"
      and ll: "loglikelihood_tokens self ?enc = Inr resps" for resps
  proof -
    from that(1) obtain nd where nd: "log_softmax_model_call self = causal_backend nd" by blast
    from ll show ?thesis
      unfolding loglikelihood_tokens_causal [OF nd] by simp
  qed
  have 1: "u = () \<and> length requests' = length requests
      \<and> (\<exists>resps. loglikelihood_tokens self ?enc = Inr resps
            \<and> length resps = length requests
            \<and> (\<forall>i<length requests.
                  req_inps (requests' ! i) = req_inps (requests ! i)
                  \<and> req_resps (requests' ! i) = resps ! i))"
    if run: "loglikelihood self requests = Inr (u, requests')" for u requests'
  proof -
    from run obtain resps where
      ll: "loglikelihood_tokens self ?enc = Inr resps"
      and r': "requests' = map (\<lambda>(req, resp). req\<lparr>req_resps := resp\<rparr>) (zip requests resps)"
      by (auto simp: loglikelihood_def Let_def split: sum.splits)
    have len: "length resps = length requests"
      using loglikelihood_tokens_length [OF ll] by simp
    have "req_inps (requests' ! i) = req_inps (requests ! i) \<and> req_resps (requests' ! i) = resps ! i"
      if "i < length requests" for i
      using that len by (simp add: r')
    with ll len show ?thesis
      by (auto simp: r')
  qed
  have 2: "loglikelihood self requests = Inl e"
    if "loglikelihood_tokens self ?enc = Inl e" for e
    using that by (simp add: loglikelihood_def)
  have 3: "loglikelihood_rolling self (Builtin_list docs) \<noteq> Inr v" for v
    by (simp add: loglikelihood_rolling_def split: sum.splits)
  have 4: "loglikelihood_rolling self (Builtin_list docs) = Inl e
      \<and> loglikelihood_rolling self (Sequence_object docs old) = Inl e"
    if "rolling_loop self docs [] = Inl e" for e
    using that by (simp add: loglikelihood_rolling_def)
  have 5: "loglikelihood_rolling self (Builtin_list docs) = Inl AttributeError
      \<and> loglikelihood_rolling self (Sequence_object docs old) =
          Inr ((), Sequence_object docs (Some loglikelihoods))"
    if "rolling_loop self docs [] = Inr loglikelihoods" for loglikelihoods
    using that by (simp add: loglikelihood_rolling_def)
  from 0 c 1 2 3 4 5 show ?thesis by blast
qed

theorem results_by_mutation_witness:
  "loglikelihood_tokens toy_lm
     (map (encode_request toy_lm)
        [\<lparr>req_inps = ([], ''ab''), req_resps = None\<rparr>,
         \<lparr>req_inps = (''a'', ''c''), req_resps = None\<rparr>,
         \<lparr>req_inps = (''bb'', ''a''), req_resps = None\<rparr>]) =
     Inr [Some (- 4, False), Some (- 1, True), Some (- 2, False)]
   \<and> loglikelihood toy_lm
       [\<lparr>req_inps = ([], ''ab''), req_resps = None\<rparr>,
        \<lparr>req_inps = (''a'', ''c''), req_resps = None\<rparr>,
        \<lparr>req_inps = (''bb'', ''a''), req_resps = None\<rparr>] =
     Inr ((), [\<lparr>req_inps = ([], ''ab''), req_resps = Some (- 4, False)\<rparr>,
               \<lparr>req_inps = (''a'', ''c''), req_resps = Some (- 1, True)\<rparr>,
               \<lparr>req_inps = (''bb'', ''a''), req_resps = Some (- 2, False)\<rparr>])
   \<and> scored_alone toy_lm (encode_request toy_lm \<lparr>req_inps = (''a'', ''c''), req_resps = None\<rparr>)
       (- 1, True)
   \<and> rolling_loop toy_lm [''abcd'', ''b''] [] = Inr [- 9, - 3]
   \<and> loglikelihood_rolling toy_lm (Builtin_list [''abcd'', ''b'']) = Inl AttributeError
   \<and> loglikelihood_rolling toy_lm (Sequence_object [''abcd'', ''b''] None) =
       Inr ((), Sequence_object [''abcd'', ''b''] (Some [- 9, - 3]))
   \<and> rolling_loop (toy_lm\<lparr>log_softmax_model_call := \<lambda>batch. Inl TorchError\<rparr>)
        [''abcd'', ''b''] [] = Inl TorchError
   \<and> loglikelihood_rolling (toy_lm\<lparr>log_softmax_model_call := \<lambda>batch. Inl TorchError\<rparr>)
        (Builtin_list [''abcd'', ''b'']) = Inl TorchError
   \<and> loglikelihood (toy_lm\<lparr>log_softmax_model_call := \<lambda>batch. Inl TorchError\<rparr>)
        [\<lparr>req_inps = ([], ''ab''), req_resps = None\<rparr>] = Inl TorchError"
proof -
  let ?reqs = "[\<lparr>req_inps = ([], ''ab''), req_resps = None\<rparr>,
                \<lparr>req_inps = (''a'', ''c''), req_resps = None\<rparr>,
                \<lparr>req_inps = (''bb'', ''a''), req_resps = None\<rparr>]"
  let ?resps = "[Some (- 4, False), Some (- 1, True), Some (- 2 :: real, False)]"
  let ?one = "[\<lparr>req_inps = ([], ''ab''), req_resps = None\<rparr>]"
  let ?failing = "toy_lm\<lparr>log_softmax_model_call := \<lambda>batch. Inl TorchError\<rparr>"
  have ll: "loglikelihood_tokens toy_lm (map (encode_request toy_lm) ?reqs) = Inr ?resps"
    by code_simp
  have written: "map (\<lambda>i. (?reqs ! i)\<lparr>req_resps := ?resps ! i\<rparr>) [0..<length ?reqs] =
      [\<lparr>req_inps = ([], ''ab''), req_resps = Some (- 4, False)\<rparr>,
       \<lparr>req_inps = (''a'', ''c''), req_resps = Some (- 1, True)\<rparr>,
       \<lparr>req_inps = (''bb'', ''a''), req_resps = Some (- 2, False)\<rparr>]"
    by code_simp
  have loop: "rolling_loop toy_lm [''abcd'', ''b''] [] = Inr [- 9, - 3]"
    by code_simp
  have loop': "rolling_loop ?failing [''abcd'', ''b''] [] = Inl TorchError"
    by code_simp
  have ll': "loglikelihood_tokens ?failing (map (encode_request ?failing) ?one) = Inl TorchError"
    by code_simp
  note T = results_by_mutation [of toy_lm ?reqs "[''abcd'', ''b'']" None]
  note T' = results_by_mutation [of ?failing ?one "[''abcd'', ''b'']" None]
  from T ll have "loglikelihood toy_lm ?reqs =
      Inr ((), map (\<lambda>i. (?reqs ! i)\<lparr>req_resps := ?resps ! i\<rparr>) [0..<length ?reqs])"
    by blast
  then have run: "loglikelihood toy_lm ?reqs =
     Inr ((), [\<lparr>req_inps = ([], ''ab''), req_resps = Some (- 4, False)\<rparr>,
               \<lparr>req_inps = (''a'', ''c''), req_resps = Some (- 1, True)\<rparr>,
               \<lparr>req_inps = (''bb'', ''a''), req_resps = Some (- 2, False)\<rparr>])"
    by (simp only: written)
  have "\<exists>next_dist. log_softmax_model_call toy_lm = causal_backend next_dist"
    by (rule exI [of _ toy_next_dist]) (simp add: toy_lm_def)
  with T ll have each: "\<exists>a. ?resps ! i = Some a
      \<and> scored_alone toy_lm (encode_request toy_lm (?reqs ! i)) a" if "i < length ?reqs" for i
    using that by blast
  have "1 < length ?reqs"
    by simp
  from each [OF this]
  have "\<exists>a. ?resps ! 1 = Some a \<and> scored_alone toy_lm (encode_request toy_lm (?reqs ! 1)) a" .
  then have alone: "scored_alone toy_lm
      (encode_request toy_lm \<lparr>req_inps = (''a'', ''c''), req_resps = None\<rparr>) (- 1, True)"
    by simp
  from T loop have a: "loglikelihood_rolling toy_lm (Builtin_list [''abcd'', ''b'']) = Inl AttributeError"
    and b: "loglikelihood_rolling toy_lm (Sequence_object [''abcd'', ''b''] None) =
       Inr ((), Sequence_object [''abcd'', ''b''] (Some [- 9, - 3]))"
    by blast+
  from T' loop' have c: "loglikelihood_rolling ?failing (Builtin_list [''abcd'', ''b'']) = Inl TorchError"
    by blast
  from T' ll' have d: "loglikelihood ?failing ?one = Inl TorchError"
    by blast
  show ?thesis
    by (intro conjI) (rule ll run alone loop a b loop' c d)+
qed

end
